theory Spec2Isabelle
  imports Main "HOL-Library.Code_Target_Nat"
begin

section \<open>JavaScript strings and character classes\<close>

definition cu :: "char \<Rightarrow> nat" where
  "cu c = of_char c"

abbreviation BSL :: char where "BSL \<equiv> CHR 0x5C"
abbreviation DQT :: char where "DQT \<equiv> CHR 0x22"

definition is_space :: "char \<Rightarrow> bool" where
  "is_space c = (cu c \<in> {9, 10, 11, 12, 13, 32, 160})"

definition is_digit :: "char \<Rightarrow> bool" where
  "is_digit c = (48 \<le> cu c \<and> cu c \<le> 57)"

definition is_word :: "char \<Rightarrow> bool" where
  "is_word c = ((65 \<le> cu c \<and> cu c \<le> 90) \<or> (97 \<le> cu c \<and> cu c \<le> 122) \<or> is_digit c \<or> c = CHR ''_'')"

definition is_line_terminator :: "char \<Rightarrow> bool" where
  "is_line_terminator c = (cu c \<in> {10, 13})"

definition syntax_characters :: "char list" where
  "syntax_characters = ''^$'' @ [BSL] @ ''.*+?()[]{}|''"

datatype citem = CChar char | CRange char char | CSpace | CWord | CDigit

fun in_item :: "citem \<Rightarrow> char \<Rightarrow> bool" where
  "in_item (CChar a) c = (c = a)"
| "in_item (CRange a b) c = (cu a \<le> cu c \<and> cu c \<le> cu b)"
| "in_item CSpace c = is_space c"
| "in_item CWord c = is_word c"
| "in_item CDigit c = is_digit c"

definition in_class :: "bool \<Rightarrow> citem list \<Rightarrow> char \<Rightarrow> bool" where
  "in_class neg items c = ((\<exists>i \<in> set items. in_item i c) \<noteq> neg)"

section \<open>Regular expressions\<close>

datatype re =
    Eps
  | Chr char
  | Dot
  | Cls bool "citem list"
  | Seq re re
  | Alt re re
  | Star re
  | Plus re
  | Opt re
  | Group nat re

type_synonym caps = "(nat \<times> string) list"

fun groups :: "re \<Rightarrow> nat set" where
  "groups Eps = {}"
| "groups (Chr c) = {}"
| "groups Dot = {}"
| "groups (Cls n cs) = {}"
| "groups (Seq a b) = groups a \<union> groups b"
| "groups (Alt a b) = groups a \<union> groups b"
| "groups (Star a) = groups a"
| "groups (Plus a) = groups a"
| "groups (Opt a) = groups a"
| "groups (Group n a) = insert n (groups a)"

definition clear_caps :: "re \<Rightarrow> caps \<Rightarrow> caps" where
  "clear_caps a cp = filter (\<lambda>(n, w). n \<notin> groups a) cp"

fun rsize :: "re \<Rightarrow> nat" where
  "rsize Eps = 1"
| "rsize (Chr c) = 1"
| "rsize Dot = 1"
| "rsize (Cls n cs) = 1"
| "rsize (Seq a b) = rsize a + rsize b + 1"
| "rsize (Alt a b) = rsize a + rsize b + 1"
| "rsize (Star a) = rsize a + 1"
| "rsize (Plus a) = rsize a + 2"
| "rsize (Opt a) = rsize a + 1"
| "rsize (Group n a) = rsize a + 1"

function ms :: "re \<Rightarrow> string \<Rightarrow> caps \<Rightarrow> (string \<times> caps) list" where
  "ms Eps s cp = [(s, cp)]"
| "ms (Chr c) s cp = (case s of [] \<Rightarrow> [] | x # xs \<Rightarrow> if x = c then [(xs, cp)] else [])"
| "ms Dot s cp = (case s of [] \<Rightarrow> [] | x # xs \<Rightarrow> if is_line_terminator x then [] else [(xs, cp)])"
| "ms (Cls n cs) s cp = (case s of [] \<Rightarrow> [] | x # xs \<Rightarrow> if in_class n cs x then [(xs, cp)] else [])"
| "ms (Seq a b) s cp = concat (map (\<lambda>(s', cp'). ms b s' cp') (ms a s cp))"
| "ms (Alt a b) s cp = ms a s cp @ ms b s cp"
| "ms (Star a) s cp =
     concat (map (\<lambda>(s', cp'). if length s' < length s then ms (Star a) s' cp' else [])
                 (ms a s (clear_caps a cp)))
     @ [(s, cp)]"
| "ms (Plus a) s cp =
     concat (map (\<lambda>(s', cp'). ms (Star a) s' cp') (ms a s (clear_caps a cp)))"
| "ms (Opt a) s cp =
     filter (\<lambda>(s', cp'). length s' < length s) (ms a s (clear_caps a cp)) @ [(s, cp)]"
| "ms (Group n a) s cp =
     map (\<lambda>(s', cp'). (s', (n, take (length s - length s') s) # cp')) (ms a s cp)"
  by pat_completeness auto
termination
  by (relation "measures [\<lambda>(r, s, cp). rsize r, \<lambda>(r, s, cp). length s]") auto


section \<open>Parsing a pattern source\<close>

datatype pmode =
    MNormal
  | MEscape
  | MClassStart
  | MClass bool "citem list"
  | MClassEscape bool "citem list"
  | MClassDash bool "citem list" char

type_synonym frame = "nat \<times> re list \<times> re list"

datatype pstate = PState pmode "frame list" nat

definition mk_seq :: "re list \<Rightarrow> re" where
  "mk_seq ts = foldr Seq ts Eps"

fun mk_alt :: "re list \<Rightarrow> re" where
  "mk_alt [] = Eps"
| "mk_alt [a] = a"
| "mk_alt (a # b # bs) = Alt a (mk_alt (b # bs))"

definition close_frame :: "re list \<Rightarrow> re list \<Rightarrow> re" where
  "close_frame alts cur = mk_alt (rev (mk_seq (rev cur) # alts))"

definition push_term :: "re \<Rightarrow> frame list \<Rightarrow> nat \<Rightarrow> pstate option" where
  "push_term t fs n =
     (case fs of
        [] \<Rightarrow> None
      | (g, alts, cur) # rest \<Rightarrow> Some (PState MNormal ((g, alts, t # cur) # rest) n))"

fun quantified :: "re \<Rightarrow> bool" where
  "quantified (Star a) = True"
| "quantified (Plus a) = True"
| "quantified (Opt a) = True"
| "quantified r = False"

definition quantify :: "(re \<Rightarrow> re) \<Rightarrow> frame list \<Rightarrow> nat \<Rightarrow> pstate option" where
  "quantify q fs n =
     (case fs of
        (g, alts, t # cur) # rest \<Rightarrow>
          if quantified t then None else Some (PState MNormal ((g, alts, q t # cur) # rest) n)
      | _ \<Rightarrow> None)"

definition class_escape :: "char \<Rightarrow> citem option" where
  "class_escape c =
     (if c = CHR ''s'' then Some CSpace
      else if c = CHR ''w'' then Some CWord
      else if c = CHR ''d'' then Some CDigit
      else if c \<in> set syntax_characters \<or> c = CHR ''/'' \<or> c = CHR ''-'' then Some (CChar c)
      else None)"

definition atom_escape :: "char \<Rightarrow> re option" where
  "atom_escape c =
     (if c = CHR ''s'' then Some (Cls False [CSpace])
      else if c = CHR ''w'' then Some (Cls False [CWord])
      else if c = CHR ''d'' then Some (Cls False [CDigit])
      else if c \<in> set syntax_characters \<or> c = CHR ''/'' then Some (Chr c)
      else None)"

definition step_class :: "bool \<Rightarrow> citem list \<Rightarrow> frame list \<Rightarrow> nat \<Rightarrow> char \<Rightarrow> pstate option" where
  "step_class neg items fs n c =
     (if c = CHR '']'' then push_term (Cls neg (rev items)) fs n
      else if c = BSL then Some (PState (MClassEscape neg items) fs n)
      else if c = CHR ''-'' then
        (case items of
           CChar a # rest \<Rightarrow> Some (PState (MClassDash neg rest a) fs n)
         | _ \<Rightarrow> Some (PState (MClass neg (CChar c # items)) fs n))
      else Some (PState (MClass neg (CChar c # items)) fs n))"

fun step :: "pstate \<Rightarrow> char \<Rightarrow> pstate option" where
  "step (PState MNormal fs n) c =
     (if c = BSL then Some (PState MEscape fs n)
      else if c = CHR ''['' then Some (PState MClassStart fs n)
      else if c = CHR ''('' then Some (PState MNormal ((Suc n, [], []) # fs) (Suc n))
      else if c = CHR '')'' then
        (case fs of
           (g, alts, cur) # (g', alts', cur') # rest \<Rightarrow>
             Some (PState MNormal ((g', alts', Group g (close_frame alts cur) # cur') # rest) n)
         | _ \<Rightarrow> None)
      else if c = CHR ''|'' then
        (case fs of
           (g, alts, cur) # rest \<Rightarrow> Some (PState MNormal ((g, mk_seq (rev cur) # alts, []) # rest) n)
         | [] \<Rightarrow> None)
      else if c = CHR ''*'' then quantify Star fs n
      else if c = CHR ''+'' then quantify Plus fs n
      else if c = CHR ''?'' then quantify Opt fs n
      else if c = CHR ''.'' then push_term Dot fs n
      else if c \<in> set syntax_characters then None
      else push_term (Chr c) fs n)"
| "step (PState MEscape fs n) c =
     (case atom_escape c of None \<Rightarrow> None | Some t \<Rightarrow> push_term t fs n)"
| "step (PState MClassStart fs n) c =
     (if c = CHR ''^'' then Some (PState (MClass True []) fs n)
      else step_class False [] fs n c)"
| "step (PState (MClass neg items) fs n) c = step_class neg items fs n c"
| "step (PState (MClassEscape neg items) fs n) c =
     (case class_escape c of
        None \<Rightarrow> None
      | Some i \<Rightarrow> Some (PState (MClass neg (i # items)) fs n))"
| "step (PState (MClassDash neg items a) fs n) c =
     (if c = CHR '']'' then push_term (Cls neg (rev (CChar (CHR ''-'') # CChar a # items))) fs n
      else if c = BSL then None
      else if cu a \<le> cu c then Some (PState (MClass neg (CRange a c # items)) fs n)
      else None)"

fun run :: "pstate \<Rightarrow> string \<Rightarrow> pstate option" where
  "run st [] = Some st"
| "run st (c # cs) = (case step st c of None \<Rightarrow> None | Some st' \<Rightarrow> run st' cs)"

record regexp =
  body :: re
  ngroups :: nat
  global :: bool

fun finish :: "bool \<Rightarrow> pstate \<Rightarrow> regexp option" where
  "finish g (PState MNormal [(k, alts, cur)] n) =
     Some \<lparr>body = close_frame alts cur, ngroups = n, global = g\<rparr>"
| "finish g st = None"

definition new_RegExp :: "string \<Rightarrow> bool \<Rightarrow> regexp option" where
  "new_RegExp src g =
     (case run (PState MNormal [(0, [], [])] 0) src of
        None \<Rightarrow> None
      | Some st \<Rightarrow> finish g st)"

section \<open>Matching against a string\<close>

record rmatch =
  index :: nat
  matched :: string
  captures :: "string option list"

definition capture :: "rmatch \<Rightarrow> nat \<Rightarrow> string option" where
  "capture m k = (if 1 \<le> k \<and> k \<le> length (captures m) then captures m ! (k - 1) else None)"

fun scan :: "regexp \<Rightarrow> string \<Rightarrow> nat \<Rightarrow> rmatch option" where
  "scan R s i =
     (case ms (body R) s [] of
        (s', cp) # rs \<Rightarrow>
          Some \<lparr>index = i, matched = take (length s - length s') s,
                captures = map (map_of cp) [1 ..< Suc (ngroups R)]\<rparr>
      | [] \<Rightarrow> (case s of [] \<Rightarrow> None | c # t \<Rightarrow> scan R t (Suc i)))"

definition str_search :: "string \<Rightarrow> regexp \<Rightarrow> nat option" where
  "str_search s R = map_option index (scan R s 0)"

definition str_match :: "string \<Rightarrow> regexp \<Rightarrow> rmatch option" where
  "str_match s R = scan R s 0"

definition digit_val :: "char \<Rightarrow> nat" where
  "digit_val d = cu d - 48"

definition capture_text :: "string option list \<Rightarrow> nat \<Rightarrow> string" where
  "capture_text caps k = (case caps ! (k - 1) of None \<Rightarrow> [] | Some w \<Rightarrow> w)"

fun GetSubstitution :: "string \<Rightarrow> string \<Rightarrow> nat \<Rightarrow> string option list \<Rightarrow> string \<Rightarrow> string" where
  "GetSubstitution m str pos caps [] = []"
| "GetSubstitution m str pos caps (c # t) =
     (if c \<noteq> CHR ''$'' then c # GetSubstitution m str pos caps t
      else case t of
        [] \<Rightarrow> [c]
      | d # t' \<Rightarrow>
          if d = CHR ''$'' then CHR ''$'' # GetSubstitution m str pos caps t'
          else if d = CHR ''&'' then m @ GetSubstitution m str pos caps t'
          else if d = CHR 0x60 then take pos str @ GetSubstitution m str pos caps t'
          else if d = CHR 0x27 then drop (pos + length m) str @ GetSubstitution m str pos caps t'
          else if is_digit d then
            (case t' of
               e # t'' \<Rightarrow>
                 if is_digit e \<and> 10 * digit_val d + digit_val e \<le> length caps then
                   (if 1 \<le> 10 * digit_val d + digit_val e
                    then capture_text caps (10 * digit_val d + digit_val e) @ GetSubstitution m str pos caps t''
                    else c # d # e # GetSubstitution m str pos caps t'')
                 else if 1 \<le> digit_val d \<and> digit_val d \<le> length caps
                   then capture_text caps (digit_val d) @ GetSubstitution m str pos caps t'
                   else c # d # GetSubstitution m str pos caps t'
             | [] \<Rightarrow>
                 if 1 \<le> digit_val d \<and> digit_val d \<le> length caps
                 then capture_text caps (digit_val d)
                 else [c, d])
          else c # GetSubstitution m str pos caps t)"

fun replace_all :: "regexp \<Rightarrow> string \<Rightarrow> string \<Rightarrow> string \<Rightarrow> nat \<Rightarrow> nat \<Rightarrow> string" where
  "replace_all R tmpl str [] i skip =
     (if 0 < skip then []
      else case ms (body R) [] [] of
        [] \<Rightarrow> []
      | (s', cp) # rs \<Rightarrow> GetSubstitution [] str i (map (map_of cp) [1 ..< Suc (ngroups R)]) tmpl)"
| "replace_all R tmpl str (c # t) i skip =
     (if 0 < skip then replace_all R tmpl str t (Suc i) (skip - 1)
      else case ms (body R) (c # t) [] of
        [] \<Rightarrow> c # replace_all R tmpl str t (Suc i) 0
      | (s', cp) # rs \<Rightarrow>
          (let len = length (c # t) - length s';
               sub = GetSubstitution (take len (c # t)) str i (map (map_of cp) [1 ..< Suc (ngroups R)]) tmpl
           in if len = 0 then sub @ c # replace_all R tmpl str t (Suc i) 0
              else sub @ replace_all R tmpl str t (Suc i) (len - 1)))"

definition str_replace :: "string \<Rightarrow> regexp \<Rightarrow> string \<Rightarrow> string" where
  "str_replace s R tmpl =
     (if global R then replace_all R tmpl s s 0 0
      else case scan R s 0 of
        None \<Rightarrow> s
      | Some m \<Rightarrow>
          take (index m) s
          @ GetSubstitution (matched m) s (index m) (captures m) tmpl
          @ drop (index m + length (matched m)) s)"

section \<open>The flag patcher (team-mode-patch.ts)\<close>

datatype TeamModeState = Enabled | Disabled | Unknown

datatype js_error = SyntaxError | TypeError

definition TODO_WRITE_MARKER_source :: string where
  "TODO_WRITE_MARKER_source =
     ''(var|let|const)'' @ [BSL] @ ''s+[A-Za-z_$]['' @ [BSL] @ ''w$]*='' @ [DQT] @ ''TodoWrite'' @ [DQT] @ '';''"

definition IS_ENABLED_FN_RE_source :: string where
  "IS_ENABLED_FN_RE_source =
     ''isEnabled'' @ [BSL] @ ''('' @ [BSL] @ '')'' @ [BSL] @ ''{return!([A-Za-z_$]['' @ [BSL] @ ''w$]*)''
     @ [BSL] @ ''('' @ [BSL] @ '')'' @ [BSL] @ ''}''"

definition ident_start :: "citem list" where
  "ident_start = [CRange (CHR ''A'') (CHR ''Z''), CRange (CHR ''a'') (CHR ''z''), CChar (CHR ''_''), CChar (CHR ''$'')]"

definition ident_part :: "citem list" where
  "ident_part = [CWord, CChar (CHR ''$'')]"

definition lit :: "string \<Rightarrow> re list" where
  "lit w = map Chr w"

definition TODO_WRITE_MARKER :: regexp where
  "TODO_WRITE_MARKER =
     \<lparr>body = mk_seq
        ([Group 1 (Alt (mk_seq (lit ''var'')) (Alt (mk_seq (lit ''let'')) (mk_seq (lit ''const'')))),
          Plus (Cls False [CSpace]),
          Cls False ident_start,
          Star (Cls False ident_part)]
         @ lit (''='' @ [DQT] @ ''TodoWrite'' @ [DQT] @ '';'')),
      ngroups = 1, global = False\<rparr>"

definition IS_ENABLED_FN_RE :: regexp where
  "IS_ENABLED_FN_RE =
     \<lparr>body = mk_seq
        (lit ''isEnabled(){return!''
         @ [Group 1 (mk_seq [Cls False ident_start, Star (Cls False ident_part)])]
         @ lit ''()}''),
      ngroups = 1, global = False\<rparr>"

definition escapeRegExp_source :: string where
  "escapeRegExp_source = ''[.*+?^${}()|['' @ [BSL] @ '']'' @ [BSL, BSL] @ '']''"

definition escapeRegExp_RE :: regexp where
  "escapeRegExp_RE =
     \<lparr>body = mk_seq [Cls False (map CChar (''.*+?^${}()|[]'' @ [BSL]))],
      ngroups = 0, global = True\<rparr>"

definition escapeRegExp :: "string \<Rightarrow> string" where
  "escapeRegExp str = str_replace str escapeRegExp_RE ([BSL] @ ''$&'')"

datatype gate = Gate (fnName: "string option")

definition findTodoWriteGate :: "string \<Rightarrow> gate option" where
  "findTodoWriteGate content =
     (case str_search content TODO_WRITE_MARKER of
        None \<Rightarrow> None
      | Some markerIndex \<Rightarrow>
          (let window = take 8000 (drop markerIndex content) in
           case str_match window IS_ENABLED_FN_RE of
             None \<Rightarrow> None
           | Some isEnabledMatch \<Rightarrow> Some (Gate (capture isEnabledMatch 1))))"

definition fnDefRe_source :: "string \<Rightarrow> string" where
  "fnDefRe_source name =
     ''function'' @ [BSL] @ ''s+'' @ escapeRegExp name
     @ [BSL] @ ''('' @ [BSL] @ '')'' @ [BSL] @ ''{return(!0|!1)'' @ [BSL] @ ''}''"

definition fnDefRe :: "string option \<Rightarrow> js_error + regexp" where
  "fnDefRe fn =
     (case fn of
        None \<Rightarrow> Inl TypeError
      | Some name \<Rightarrow>
          (case new_RegExp (fnDefRe_source name) False of
             None \<Rightarrow> Inl SyntaxError
           | Some R \<Rightarrow> Inr R))"

definition findGateDefinition :: "string \<Rightarrow> string option \<Rightarrow> js_error + rmatch option" where
  "findGateDefinition content fn =
     (case fnDefRe fn of
        Inl e \<Rightarrow> Inl e
      | Inr R \<Rightarrow> Inr (str_match content R))"

definition detectTeamModeState :: "string \<Rightarrow> js_error + TeamModeState" where
  "detectTeamModeState content =
     (case findTodoWriteGate content of
        None \<Rightarrow> Inr Unknown
      | Some gate \<Rightarrow>
          (case findGateDefinition content (fnName gate) of
             Inl e \<Rightarrow> Inl e
           | Inr None \<Rightarrow> Inr Unknown
           | Inr (Some fnDefMatch) \<Rightarrow>
               Inr (if capture fnDefMatch 1 = Some ''!0'' then Enabled else Disabled)))"

record set_result =
  content :: string
  changed :: bool
  state :: TeamModeState

definition setTeamModeEnabled :: "string \<Rightarrow> bool \<Rightarrow> js_error + set_result" where
  "setTeamModeEnabled cont enable =
     (case findTodoWriteGate cont of
        None \<Rightarrow> Inr \<lparr>content = cont, changed = False, state = Unknown\<rparr>
      | Some gate \<Rightarrow>
          (case fnDefRe (fnName gate) of
             Inl e \<Rightarrow> Inl e
           | Inr R \<Rightarrow>
               (case str_match cont R of
                  None \<Rightarrow> Inr \<lparr>content = cont, changed = False, state = Unknown\<rparr>
                | Some m \<Rightarrow>
                    (let desiredLiteral = (if enable then ''!0'' else ''!1'');
                         currentLiteral = capture m 1
                     in if currentLiteral = Some desiredLiteral then
                          Inr \<lparr>content = cont, changed = False,
                               state = (if enable then Enabled else Disabled)\<rparr>
                        else
                          (let updated = str_replace cont R
                                 (''function '' @ (case fnName gate of None \<Rightarrow> ''undefined'' | Some name \<Rightarrow> name)
                                  @ ''(){return'' @ desiredLiteral @ ''}'')
                           in Inr \<lparr>content = updated, changed = True,
                                   state = (if enable then Enabled else Disabled)\<rparr>)))))"

section \<open>What the three patterns describe\<close>

definition id_start :: "char \<Rightarrow> bool" where
  "id_start c = ((65 \<le> cu c \<and> cu c \<le> 90) \<or> (97 \<le> cu c \<and> cu c \<le> 122) \<or> c = CHR ''_'' \<or> c = CHR ''$'')"

definition id_part :: "char \<Rightarrow> bool" where
  "id_part c = (is_word c \<or> c = CHR ''$'')"

definition is_ident :: "string \<Rightarrow> bool" where
  "is_ident n = (case n of [] \<Rightarrow> False | c # cs \<Rightarrow> id_start c \<and> (\<forall>d \<in> set cs. id_part d))"

definition is_blank :: "string \<Rightarrow> bool" where
  "is_blank ws = (ws \<noteq> [] \<and> (\<forall>c \<in> set ws. is_space c))"

definition marker_tail :: string where
  "marker_tail = ''='' @ [DQT] @ ''TodoWrite'' @ [DQT] @ '';''"

definition marker_at :: "string \<Rightarrow> bool" where
  "marker_at t = (\<exists>kw ws idn rest. t = kw @ ws @ idn @ marker_tail @ rest
      \<and> kw \<in> {''var'', ''let'', ''const''} \<and> is_blank ws \<and> is_ident idn)"

definition dispatch :: "string \<Rightarrow> string" where
  "dispatch n = ''isEnabled(){return!'' @ n @ ''()}''"

definition dispatch_at :: "string \<Rightarrow> string \<Rightarrow> bool" where
  "dispatch_at n t = (is_ident n \<and> (\<exists>rest. t = dispatch n @ rest))"

definition gate_def :: "string \<Rightarrow> string \<Rightarrow> string \<Rightarrow> string" where
  "gate_def ws n l = ''function'' @ ws @ n @ ''(){return'' @ l @ ''}''"

definition def_at :: "string \<Rightarrow> string \<Rightarrow> string \<Rightarrow> bool" where
  "def_at n l t = (\<exists>ws rest. t = gate_def ws n l @ rest \<and> is_blank ws)"

definition first_at :: "(string \<Rightarrow> bool) \<Rightarrow> string \<Rightarrow> nat \<Rightarrow> bool" where
  "first_at P s i = (i \<le> length s \<and> P (drop i s) \<and> (\<forall>j < i. \<not> P (drop j s)))"


definition listed_metacharacters :: "char list" where
  "listed_metacharacters = ''.*+?^${}()|[]'' @ [BSL]"

definition scenario :: string where
  "scenario = ''const x='' @ [DQT] @ ''TodoWrite'' @ [DQT]
     @ '';...isEnabled(){return!zz()}...function zz(){return!1}''"

definition escape_char :: "char \<Rightarrow> string" where
  "escape_char c = (if c \<in> set listed_metacharacters then [BSL, c] else [c])"

definition fnDef_body :: "string \<Rightarrow> re" where
  "fnDef_body name =
     mk_seq (lit ''function'' @ [Plus (Cls False [CSpace])] @ lit name @ lit ''(){return''
             @ [Group 1 (Alt (mk_seq (lit ''!0'')) (mk_seq (lit ''!1'')))] @ lit ''}'')"

definition matches_at :: "regexp \<Rightarrow> string \<Rightarrow> nat \<Rightarrow> bool" where
  "matches_at R s i = (i \<le> length s \<and> ms (body R) (drop i s) [] \<noteq> [])"

definition FD :: "string \<Rightarrow> regexp" where
  "FD name = \<lparr>body = fnDef_body name, ngroups = 1, global = False\<rparr>"

definition scenario_enabled :: string where
  "scenario_enabled = ''const x='' @ [DQT] @ ''TodoWrite'' @ [DQT]
     @ '';...isEnabled(){return!zz()}...function zz(){return!0}''"

definition marker_word :: "string \<Rightarrow> bool" where
  "marker_word mk = (\<exists>kw ws idn. mk = kw @ ws @ idn @ marker_tail
      \<and> kw \<in> {''var'', ''let'', ''const''} \<and> is_blank ws \<and> is_ident idn)"

definition scenario_marker :: string where
  "scenario_marker = ''const x='' @ [DQT] @ ''TodoWrite'' @ [DQT] @ '';''"

text \<open>Three bundles whose gate function has a dollar sign in its name.\<close>

definition bundle_dollar :: string where
  "bundle_dollar = ''const x='' @ [DQT] @ ''TodoWrite'' @ [DQT]
     @ '';isEnabled(){return!a$1()}function a$1(){return!1}''"

definition bundle_dollar_enabled :: string where
  "bundle_dollar_enabled = ''const x='' @ [DQT] @ ''TodoWrite'' @ [DQT]
     @ '';isEnabled(){return!a$1()}function a!1(){return!0}''"

definition bundle_twice :: string where
  "bundle_twice = ''const x='' @ [DQT] @ ''TodoWrite'' @ [DQT]
     @ '';isEnabled(){return!a$1()}function a$1(){return!1};function a$1(){return!1}''"

definition bundle_twice_first :: string where
  "bundle_twice_first = ''const x='' @ [DQT] @ ''TodoWrite'' @ [DQT]
     @ '';isEnabled(){return!a$1()}function a!1(){return!0};function a$1(){return!1}''"

definition bundle_twice_second :: string where
  "bundle_twice_second = ''const x='' @ [DQT] @ ''TodoWrite'' @ [DQT]
     @ '';isEnabled(){return!a$1()}function a!1(){return!0};function a!1(){return!0}''"

section \<open>The preset registry (mcp-presets/index.ts)\<close>

record McpServerConfig =
  command :: string
  args :: "string list"
  env :: "(string \<times> string) list option"

record McpPreset =
  key :: string
  label :: string
  description :: string
  server :: McpServerConfig
  prerequisites :: "string list"
  warning :: "string option"

definition CODEX_PRESET :: McpPreset where
  "CODEX_PRESET =
     \<lparr>key = ''codex'',
      label = ''Codex Subagent'',
      description = ''Delegate coding tasks to OpenAI Codex CLI with spawn_agent and spawn_agents_parallel tools'',
      server = \<lparr>command = ''uvx'', args = [''codex-as-mcp@latest''], env = None\<rparr>,
      prerequisites = [''Codex CLI v0.46.0+ installed'',
                       ''Non-interactive auth configured in ~/.codex/config.toml''],
      warning = Some ''Uses --full-auto flag granting command execution and file editing permissions''\<rparr>"

definition GEMINI_PRESET :: McpPreset where
  "GEMINI_PRESET =
     \<lparr>key = ''gemini'',
      label = ''Gemini CLI'',
      description = ''Query Google Gemini for large file analysis (1M+ tokens) and sandboxed code execution'',
      server = \<lparr>command = ''npx'', args = [''-y'', ''gemini-mcp-tool''], env = None\<rparr>,
      prerequisites = [''Node.js v16.0.0+'', ''Google Gemini CLI installed and configured''],
      warning = None\<rparr>"

definition MCP_PRESETS :: "McpPreset list" where
  "MCP_PRESETS = [CODEX_PRESET, GEMINI_PRESET]"

definition getMcpPreset :: "string \<Rightarrow> McpPreset option" where
  "getMcpPreset k = find (\<lambda>p. key p = k) MCP_PRESETS"

fun split :: "char \<Rightarrow> string \<Rightarrow> string list" where
  "split sep [] = [[]]"
| "split sep (c # t) =
     (if c = sep then [] # split sep t
      else case split sep t of [] \<Rightarrow> [[c]] | h # r \<Rightarrow> (c # h) # r)"

definition trim :: "string \<Rightarrow> string" where
  "trim s = rev (dropWhile is_space (rev (dropWhile is_space s)))"

definition lower_char :: "char \<Rightarrow> char" where
  "lower_char c =
     (if (65 \<le> cu c \<and> cu c \<le> 90) \<or> (192 \<le> cu c \<and> cu c \<le> 222 \<and> cu c \<noteq> 215)
      then char_of (cu c + 32) else c)"

definition toLowerCase :: "string \<Rightarrow> string" where
  "toLowerCase s = map lower_char s"

definition parseMcpPresets :: "string option \<Rightarrow> string list" where
  "parseMcpPresets input =
     (case input of
        None \<Rightarrow> []
      | Some s \<Rightarrow>
          if s = [] then []
          else filter (\<lambda>k. getMcpPreset k \<noteq> None)
                 (map (\<lambda>k. toLowerCase (trim k)) (split (CHR '','') s)))"

text \<open>The text that a list of tokens spells when written with commas between them.\<close>

fun join :: "string list \<Rightarrow> string" where
  "join [] = []"
| "join [t] = t"
| "join (t # u # ts) = t @ CHR '','' # join (u # ts)"

section \<open>Occurrences of a word in a text\<close>

text \<open>
  A bundle with two dispatch calls after the marker: the first names \<open>yy\<close>, which is
  defined nowhere, the second names \<open>zz\<close>, which is defined.
\<close>

definition decoy :: string where
  "decoy = ''const x='' @ [DQT] @ ''TodoWrite'' @ [DQT]
     @ '';isEnabled(){return!yy()}isEnabled(){return!zz()}function zz(){return!0}''"

text \<open>
  A bundle whose gate definition has two spaces after \<open>function\<close>, and what two
  successive rewrites make of it.
\<close>

definition bundle_spaces :: string where
  "bundle_spaces = ''const x='' @ [DQT] @ ''TodoWrite'' @ [DQT]
     @ '';isEnabled(){return!zz()}function  zz(){return!1}''"

definition bundle_spaces_enabled :: string where
  "bundle_spaces_enabled = ''const x='' @ [DQT] @ ''TodoWrite'' @ [DQT]
     @ '';isEnabled(){return!zz()}function zz(){return!0}''"

definition bundle_spaces_disabled :: string where
  "bundle_spaces_disabled = ''const x='' @ [DQT] @ ''TodoWrite'' @ [DQT]
     @ '';isEnabled(){return!zz()}function zz(){return!1}''"

definition occurs_at :: "string \<Rightarrow> string \<Rightarrow> nat \<Rightarrow> bool" where
  "occurs_at w s j = (\<exists>a b. s = a @ w @ b \<and> length a = j)"

definition dispatch_word :: "string \<Rightarrow> bool" where
  "dispatch_word e = (\<exists>n. is_ident n \<and> e = dispatch n)"

definition def_word :: "string \<Rightarrow> string \<Rightarrow> bool" where
  "def_word n d = (\<exists>ws l. is_blank ws \<and> l \<in> {''!0'', ''!1''} \<and> d = gate_def ws n l)"

text \<open>
  A name that \<open>GetSubstitution\<close> copies as it stands when there is one capture group: no
  \<open>$$\<close>, no \<open>$1\<close> and no \<open>$01\<close> in it.
\<close>

fun dollar_safe :: "string \<Rightarrow> bool" where
  "dollar_safe [] = True"
| "dollar_safe (c # t) =
     (if c = CHR ''$'' then
        (case t of
           [] \<Rightarrow> True
         | d # t' \<Rightarrow> d \<noteq> CHR ''$'' \<and> d \<noteq> CHR ''1''
             \<and> \<not> (d = CHR ''0'' \<and> (case t' of [] \<Rightarrow> False | e # t'' \<Rightarrow> e = CHR ''1''))
             \<and> dollar_safe t)
      else dollar_safe t)"

definition first_occ :: "(string \<Rightarrow> bool) \<Rightarrow> string \<Rightarrow> nat \<Rightarrow> nat \<Rightarrow> bool" where
  "first_occ W D N k =
     ((\<exists>w. W w \<and> occurs_at w D k \<and> k + length w \<le> N)
      \<and> (\<forall>j < k. \<not> (\<exists>w. W w \<and> occurs_at w D j \<and> j + length w \<le> N)))"

section \<open>The JSON store (unnamed/part\_000)\<close>

text \<open>
  For this part a JavaScript string is the list of its UTF-16 code units, so that every
  escape \<open>\uXXXX\<close> of a JSON text has a value.
\<close>

type_synonym jstring = "nat list"

definition js :: "string \<Rightarrow> jstring" where
  "js s = map cu s"

text \<open>
  A JavaScript number that \<open>JSON.parse\<close> can produce: a double \<open>Finite neg m q\<close> of
  value \<open>m * 2 ^ q\<close> (negative when \<open>neg\<close>), with \<open>2 ^ 52 \<le> m < 2 ^ 53\<close> for a normal
  number, \<open>m < 2 ^ 52\<close> and \<open>q = - 1074\<close> for a subnormal one and \<open>m = 0\<close>, \<open>q = 0\<close> for
  zero; or an infinity.
\<close>

datatype number = Finite bool nat int | Infinite bool

text \<open>
  A parsed JSON value. An object is the list of its own properties in the order in which
  JavaScript enumerates them.
\<close>

datatype json = JNull | JBool bool | JNum number | JStr jstring | JArr "json list"
  | JObj "(jstring \<times> json) list"

subsection \<open>Numbers\<close>

definition is_dig :: "nat \<Rightarrow> bool" where
  "is_dig c = (48 \<le> c \<and> c \<le> 57)"

definition digits_val :: "jstring \<Rightarrow> nat" where
  "digits_val ds = foldl (\<lambda>a c. 10 * a + (c - 48)) 0 ds"

fun digits :: "nat \<Rightarrow> jstring" where
  "digits n = (if n < 10 then [48 + n] else digits (n div 10) @ [48 + n mod 10])"

definition fraction :: "jstring \<Rightarrow> (jstring \<times> jstring) option" where
  "fraction t =
     (case t of
        [] \<Rightarrow> Some ([], [])
      | c # r \<Rightarrow>
          if c = 46 then
            (if takeWhile is_dig r = [] then None
             else Some (takeWhile is_dig r, dropWhile is_dig r))
          else Some ([], t))"

definition exponent :: "jstring \<Rightarrow> int option" where
  "exponent t =
     (case t of
        [] \<Rightarrow> Some 0
      | c # r \<Rightarrow>
          if c = 101 \<or> c = 69 then
            (case r of
               [] \<Rightarrow> None
             | d # r' \<Rightarrow>
                 if d = 43 then
                   (if r' \<noteq> [] \<and> list_all is_dig r' then Some (int (digits_val r')) else None)
                 else if d = 45 then
                   (if r' \<noteq> [] \<and> list_all is_dig r' then Some (- int (digits_val r')) else None)
                 else if list_all is_dig r then Some (int (digits_val r)) else None)
          else None)"

fun bitlen :: "nat \<Rightarrow> nat" where
  "bitlen n = (if n = 0 then 0 else Suc (bitlen (n div 2)))"

text \<open>\<open>ge_pow B a b E\<close>: the fraction \<open>a / b\<close> is at least \<open>B ^ E\<close>.\<close>

definition ge_pow :: "nat \<Rightarrow> nat \<Rightarrow> nat \<Rightarrow> int \<Rightarrow> bool" where
  "ge_pow B a b E = (if 0 \<le> E then b * B ^ nat E \<le> a else b \<le> a * B ^ nat (- E))"

text \<open>
  The double nearest to the fraction \<open>a / b\<close>, ties to the even mantissa; beyond the
  largest double it is an infinity.
\<close>

definition round_double :: "bool \<Rightarrow> nat \<Rightarrow> nat \<Rightarrow> number" where
  "round_double neg a b =
     (if a = 0 then Finite neg 0 0
      else
        (let E0 = int (bitlen a) - int (bitlen b);
             E = (if ge_pow 2 a b E0 then E0 else E0 - 1);
             q = max (E - 52) (- 1074);
             n = (if 0 \<le> q then a else a * 2 ^ nat (- q));
             d = (if 0 \<le> q then b * 2 ^ nat q else b);
             M0 = n div d;
             r = n mod d;
             M = (if d < 2 * r \<or> (2 * r = d \<and> odd M0) then M0 + 1 else M0);
             M' = (if M = 2 ^ 53 then 2 ^ 52 else M);
             q' = (if M = 2 ^ 53 then q + 1 else q)
         in if M' = 0 then Finite neg 0 0
            else if 971 < q' then Infinite neg
            else Finite neg M' q'))"

text \<open>The double for the decimal \<open>c * 10 ^ e\<close>.\<close>

definition decimal_double :: "bool \<Rightarrow> nat \<Rightarrow> int \<Rightarrow> number" where
  "decimal_double neg c e =
     (if 0 \<le> e then round_double neg (c * 10 ^ nat e) 1 else round_double neg c (10 ^ nat (- e)))"

definition parse_number :: "jstring \<Rightarrow> number option" where
  "parse_number t =
     (let neg = (case t of [] \<Rightarrow> False | c # r \<Rightarrow> c = 45);
          t1 = (if neg then tl t else t);
          ip = takeWhile is_dig t1
      in if ip = [] \<or> (1 < length ip \<and> hd ip = 48) then None
         else
           (case fraction (dropWhile is_dig t1) of
              None \<Rightarrow> None
            | Some (fp, t3) \<Rightarrow>
                (case exponent t3 of
                   None \<Rightarrow> None
                 | Some ex \<Rightarrow>
                     Some (decimal_double neg (digits_val (ip @ fp)) (ex - int (length fp))))))"

text \<open>
  \<open>Number::toString\<close>. For a positive double \<open>m * 2 ^ q\<close> it takes the least number
  \<open>k\<close> of digits for which a decimal \<open>s * 10 ^ (n - k)\<close> with \<open>k\<close> digits reads back as
  the same double, and of two such decimals the one nearer to the double.
\<close>

definition shortest_digits :: "nat \<Rightarrow> int \<Rightarrow> jstring \<times> int" where
  "shortest_digits m q =
     (let a = (if 0 \<le> q then m * 2 ^ nat q else m);
          b = (if 0 \<le> q then 1 else 2 ^ nat (- q));
          n0 = int (length (digits a)) - int (length (digits b));
          n = (if ge_pow 10 a b n0 then n0 + 1 else n0);
          pick = (\<lambda>k.
            let sc = n - int k;
                lo = (if 0 \<le> sc then a div (b * 10 ^ nat sc) else (a * 10 ^ nat (- sc)) div b);
                hi = lo + 1;
                lo_ok = (decimal_double False lo sc = Finite False m q);
                hi_ok = (decimal_double False hi sc = Finite False m q);
                x2 = (if 0 \<le> sc then 2 * a else 2 * a * 10 ^ nat (- sc));
                mid = (if 0 \<le> sc then (2 * lo + 1) * 10 ^ nat sc * b else (2 * lo + 1) * b)
            in if lo_ok \<and> hi_ok then
                 Some (if x2 < mid \<or> (x2 = mid \<and> even lo) then lo else hi)
               else if lo_ok then Some lo
               else if hi_ok then Some hi
               else None)
      in case List.map_filter (\<lambda>k. map_option (\<lambda>s. (k, s)) (pick k)) [1 ..< 18] of
           [] \<Rightarrow> (digits m, q)
         | (k, s) # rest \<Rightarrow> if s = 10 ^ k then ([49], n + 1) else (digits s, n))"

definition number_to_string :: "number \<Rightarrow> jstring" where
  "number_to_string x =
     (case x of
        Infinite neg \<Rightarrow> (if neg then js ''-Infinity'' else js ''Infinity'')
      | Finite neg m q \<Rightarrow>
          if m = 0 then [48]
          else
            (let ds = fst (shortest_digits m q);
                 n = snd (shortest_digits m q);
                 k = int (length ds)
             in (if neg then [45] else [])
                @ (if k \<le> n \<and> n \<le> 21 then ds @ replicate (nat (n - k)) 48
                   else if 0 < n \<and> n \<le> 21 then take (nat n) ds @ 46 # drop (nat n) ds
                   else if - 6 < n \<and> n \<le> 0 then 48 # 46 # replicate (nat (- n)) 48 @ ds
                   else hd ds # (if k = 1 then [] else 46 # tl ds)
                        @ 101 # (if n - 1 < 0 then 45 else 43) # digits (nat \<bar>n - 1\<bar>))))"

subsection \<open>\<open>JSON.parse\<close>\<close>

datatype token = TLBrace | TRBrace | TLBrack | TRBrack | TColon | TComma
  | TStr jstring | TNum number | TTrue | TFalse | TNull

text \<open>The lexer reads one code unit at a time; the accumulators are in reverse order.\<close>

datatype lmode = LStart | LStr jstring | LEsc jstring | LUni jstring "nat list"
  | LNum jstring | LWord jstring

definition hex_val :: "nat \<Rightarrow> nat option" where
  "hex_val c =
     (if 48 \<le> c \<and> c \<le> 57 then Some (c - 48)
      else if 65 \<le> c \<and> c \<le> 70 then Some (c - 55)
      else if 97 \<le> c \<and> c \<le> 102 then Some (c - 87)
      else None)"

definition lex_start :: "nat \<Rightarrow> token list \<Rightarrow> (lmode \<times> token list) option" where
  "lex_start c toks =
     (if c = 32 \<or> c = 9 \<or> c = 10 \<or> c = 13 then Some (LStart, toks)
      else if c = 123 then Some (LStart, TLBrace # toks)
      else if c = 125 then Some (LStart, TRBrace # toks)
      else if c = 91 then Some (LStart, TLBrack # toks)
      else if c = 93 then Some (LStart, TRBrack # toks)
      else if c = 58 then Some (LStart, TColon # toks)
      else if c = 44 then Some (LStart, TComma # toks)
      else if c = 34 then Some (LStr [], toks)
      else if c = 45 \<or> is_dig c then Some (LNum [c], toks)
      else if 97 \<le> c \<and> c \<le> 122 then Some (LWord [c], toks)
      else None)"

definition finish_number :: "jstring \<Rightarrow> token list \<Rightarrow> token list option" where
  "finish_number acc toks =
     (case parse_number (rev acc) of
        None \<Rightarrow> None
      | Some x \<Rightarrow> Some (TNum x # toks))"

definition finish_word :: "jstring \<Rightarrow> token list \<Rightarrow> token list option" where
  "finish_word acc toks =
     (if rev acc = js ''true'' then Some (TTrue # toks)
      else if rev acc = js ''false'' then Some (TFalse # toks)
      else if rev acc = js ''null'' then Some (TNull # toks)
      else None)"

fun lex_step :: "lmode \<times> token list \<Rightarrow> nat \<Rightarrow> (lmode \<times> token list) option" where
  "lex_step (LStart, toks) c = lex_start c toks"
| "lex_step (LStr acc, toks) c =
     (if c = 34 then Some (LStart, TStr (rev acc) # toks)
      else if c = 92 then Some (LEsc acc, toks)
      else if c < 32 then None
      else Some (LStr (c # acc), toks))"
| "lex_step (LEsc acc, toks) c =
     (if c = 34 \<or> c = 92 \<or> c = 47 then Some (LStr (c # acc), toks)
      else if c = 98 then Some (LStr (8 # acc), toks)
      else if c = 102 then Some (LStr (12 # acc), toks)
      else if c = 110 then Some (LStr (10 # acc), toks)
      else if c = 114 then Some (LStr (13 # acc), toks)
      else if c = 116 then Some (LStr (9 # acc), toks)
      else if c = 117 then Some (LUni acc [], toks)
      else None)"
| "lex_step (LUni acc hs, toks) c =
     (case hex_val c of
        None \<Rightarrow> None
      | Some h \<Rightarrow>
          if length hs = 3
          then Some (LStr (foldl (\<lambda>a d. 16 * a + d) 0 (hs @ [h]) # acc), toks)
          else Some (LUni acc (hs @ [h]), toks))"
| "lex_step (LNum acc, toks) c =
     (if is_dig c \<or> c = 43 \<or> c = 45 \<or> c = 46 \<or> c = 101 \<or> c = 69 then Some (LNum (c # acc), toks)
      else case finish_number acc toks of
        None \<Rightarrow> None
      | Some toks' \<Rightarrow> lex_start c toks')"
| "lex_step (LWord acc, toks) c =
     (if 97 \<le> c \<and> c \<le> 122 then Some (LWord (c # acc), toks)
      else case finish_word acc toks of
        None \<Rightarrow> None
      | Some toks' \<Rightarrow> lex_start c toks')"

fun lex_run :: "lmode \<times> token list \<Rightarrow> jstring \<Rightarrow> (lmode \<times> token list) option" where
  "lex_run st [] = Some st"
| "lex_run st (c # cs) = (case lex_step st c of None \<Rightarrow> None | Some st' \<Rightarrow> lex_run st' cs)"

fun lex_end :: "lmode \<times> token list \<Rightarrow> token list option" where
  "lex_end (LStart, toks) = Some (rev toks)"
| "lex_end (LNum acc, toks) = map_option rev (finish_number acc toks)"
| "lex_end (LWord acc, toks) = map_option rev (finish_word acc toks)"
| "lex_end (LStr acc, toks) = None"
| "lex_end (LEsc acc, toks) = None"
| "lex_end (LUni acc hs, toks) = None"

definition tokenize :: "jstring \<Rightarrow> token list option" where
  "tokenize text = (case lex_run (LStart, []) text of None \<Rightarrow> None | Some st \<Rightarrow> lex_end st)"

text \<open>
  Property order of an ordinary object: the array indices in ascending order, then the
  other keys in the order of their creation. A key that is set again keeps its place.
\<close>

definition is_array_index :: "jstring \<Rightarrow> bool" where
  "is_array_index k =
     (k \<noteq> [] \<and> list_all is_dig k \<and> (k = [48] \<or> hd k \<noteq> 48) \<and> digits_val k \<le> 4294967294)"

definition obj_put :: "jstring \<Rightarrow> json \<Rightarrow> (jstring \<times> json) list \<Rightarrow> (jstring \<times> json) list" where
  "obj_put k v ps =
     (if k \<in> fst ` set ps then map (\<lambda>p. if fst p = k then (k, v) else p) ps
      else if is_array_index k then
        takeWhile (\<lambda>p. is_array_index (fst p) \<and> digits_val (fst p) < digits_val k) ps
        @ (k, v) # dropWhile (\<lambda>p. is_array_index (fst p) \<and> digits_val (fst p) < digits_val k) ps
      else ps @ [(k, v)])"

text \<open>The parser keeps a stack of the containers that are open.\<close>

datatype jframe = FArr "json list" | FObj "(jstring \<times> json) list"
  | FObjV "(jstring \<times> json) list" jstring

datatype jmode = PValue | PArrFirst | PObjFirst | PKey | PColon | PAfter | PDone json

definition push_value :: "json \<Rightarrow> jframe list \<Rightarrow> (jframe list \<times> jmode) option" where
  "push_value v stack =
     (case stack of
        [] \<Rightarrow> Some ([], PDone v)
      | FArr es # st \<Rightarrow> Some (FArr (v # es) # st, PAfter)
      | FObjV ps k # st \<Rightarrow> Some (FObj (obj_put k v ps) # st, PAfter)
      | FObj ps # st \<Rightarrow> None)"

definition parse_value :: "jframe list \<Rightarrow> token \<Rightarrow> (jframe list \<times> jmode) option" where
  "parse_value stack tok =
     (case tok of
        TStr s \<Rightarrow> push_value (JStr s) stack
      | TNum x \<Rightarrow> push_value (JNum x) stack
      | TTrue \<Rightarrow> push_value (JBool True) stack
      | TFalse \<Rightarrow> push_value (JBool False) stack
      | TNull \<Rightarrow> push_value JNull stack
      | TLBrack \<Rightarrow> Some (FArr [] # stack, PArrFirst)
      | TLBrace \<Rightarrow> Some (FObj [] # stack, PObjFirst)
      | _ \<Rightarrow> None)"

definition parse_key :: "jframe list \<Rightarrow> token \<Rightarrow> (jframe list \<times> jmode) option" where
  "parse_key stack tok =
     (case (stack, tok) of
        (FObj ps # st, TStr k) \<Rightarrow> Some (FObjV ps k # st, PColon)
      | _ \<Rightarrow> None)"

definition close_array :: "jframe list \<Rightarrow> (jframe list \<times> jmode) option" where
  "close_array stack = (case stack of FArr es # st \<Rightarrow> push_value (JArr (rev es)) st | _ \<Rightarrow> None)"

definition close_object :: "jframe list \<Rightarrow> (jframe list \<times> jmode) option" where
  "close_object stack = (case stack of FObj ps # st \<Rightarrow> push_value (JObj ps) st | _ \<Rightarrow> None)"

fun parse_step :: "jframe list \<times> jmode \<Rightarrow> token \<Rightarrow> (jframe list \<times> jmode) option" where
  "parse_step (stack, PValue) tok = parse_value stack tok"
| "parse_step (stack, PArrFirst) tok =
     (if tok = TRBrack then close_array stack else parse_value stack tok)"
| "parse_step (stack, PObjFirst) tok =
     (if tok = TRBrace then close_object stack else parse_key stack tok)"
| "parse_step (stack, PKey) tok = parse_key stack tok"
| "parse_step (stack, PColon) tok = (if tok = TColon then Some (stack, PValue) else None)"
| "parse_step (stack, PAfter) tok =
     (if tok = TComma then
        (case stack of
           FArr es # st \<Rightarrow> Some (stack, PValue)
         | FObj ps # st \<Rightarrow> Some (stack, PKey)
         | _ \<Rightarrow> None)
      else if tok = TRBrack then close_array stack
      else if tok = TRBrace then close_object stack
      else None)"
| "parse_step (stack, PDone v) tok = None"

fun parse_run :: "jframe list \<times> jmode \<Rightarrow> token list \<Rightarrow> (jframe list \<times> jmode) option" where
  "parse_run st [] = Some st"
| "parse_run st (t # ts) = (case parse_step st t of None \<Rightarrow> None | Some st' \<Rightarrow> parse_run st' ts)"

definition JSON_parse :: "jstring \<Rightarrow> js_error + json" where
  "JSON_parse text =
     (case tokenize text of
        None \<Rightarrow> Inl SyntaxError
      | Some toks \<Rightarrow>
          (case parse_run ([], PValue) toks of
             Some ([], PDone v) \<Rightarrow> Inr v
           | _ \<Rightarrow> Inl SyntaxError))"

subsection \<open>\<open>JSON.stringify\<close>\<close>

definition hex_digit :: "nat \<Rightarrow> nat" where
  "hex_digit n = (if n < 10 then 48 + n else 87 + n)"

definition unicode_escape :: "nat \<Rightarrow> jstring" where
  "unicode_escape c =
     [92, 117, hex_digit (c div 4096 mod 16), hex_digit (c div 256 mod 16),
      hex_digit (c div 16 mod 16), hex_digit (c mod 16)]"

definition quote_unit :: "nat \<Rightarrow> jstring" where
  "quote_unit c =
     (if c = 8 then [92, 98] else if c = 9 then [92, 116] else if c = 10 then [92, 110]
      else if c = 12 then [92, 102] else if c = 13 then [92, 114]
      else if c = 34 then [92, 34] else if c = 92 then [92, 92]
      else if c < 32 then unicode_escape c
      else [c])"

definition is_lead :: "nat \<Rightarrow> bool" where
  "is_lead c = (55296 \<le> c \<and> c \<le> 56319)"

definition is_trail :: "nat \<Rightarrow> bool" where
  "is_trail c = (56320 \<le> c \<and> c \<le> 57343)"

fun quote_units :: "jstring \<Rightarrow> jstring" where
  "quote_units [] = []"
| "quote_units [c] = (if is_lead c \<or> is_trail c then unicode_escape c else quote_unit c)"
| "quote_units (c # d # cs) =
     (if is_lead c then
        (if is_trail d then c # d # quote_units cs else unicode_escape c @ quote_units (d # cs))
      else if is_trail c then unicode_escape c @ quote_units (d # cs)
      else quote_unit c @ quote_units (d # cs))"

definition QuoteJSONString :: "jstring \<Rightarrow> jstring" where
  "QuoteJSONString s = 34 # quote_units s @ [34]"

fun commas :: "jstring list \<Rightarrow> jstring" where
  "commas [] = []"
| "commas [t] = t"
| "commas (t # u # ts) = t @ 44 # commas (u # ts)"

primrec JSON_stringify :: "json \<Rightarrow> jstring" where
  "JSON_stringify JNull = js ''null''"
| "JSON_stringify (JBool b) = (if b then js ''true'' else js ''false'')"
| "JSON_stringify (JNum x) =
     (case x of Infinite neg \<Rightarrow> js ''null'' | Finite neg m q \<Rightarrow> number_to_string x)"
| "JSON_stringify (JStr s) = QuoteJSONString s"
| "JSON_stringify (JArr xs) = 91 # commas (map JSON_stringify xs) @ [93]"
| "JSON_stringify (JObj ps) =
     123 # commas (map (\<lambda>p. QuoteJSONString (fst p) @ 58 # snd p)
                    (map (map_prod id JSON_stringify) ps)) @ [125]"

subsection \<open>The store\<close>

definition sanitizeJson :: "json \<Rightarrow> js_error + json" where
  "sanitizeJson obj = JSON_parse (JSON_stringify obj)"

definition MAX_JSON_SIZE :: nat where
  "MAX_JSON_SIZE = 1024 * 1024"

text \<open>
  What the file system answers for a path: \<open>statSync\<close> gives the size in bytes,
  \<open>readFileSync\<close> the decoded text, or throws.
\<close>

record file_entry =
  file_size :: nat
  file_text :: "jstring option"

definition readJson :: "(string \<rightharpoonup> file_entry) \<Rightarrow> string \<Rightarrow> json" where
  "readJson fs filePath =
     (case fs filePath of
        None \<Rightarrow> JNull
      | Some stats \<Rightarrow>
          if file_size stats > MAX_JSON_SIZE then JNull
          else
            (case file_text stats of
               None \<Rightarrow> JNull
             | Some cont \<Rightarrow>
                 (case JSON_parse cont of
                    Inl e \<Rightarrow> JNull
                  | Inr parsed \<Rightarrow>
                      (case sanitizeJson parsed of
                         Inl e \<Rightarrow> JNull
                       | Inr v \<Rightarrow> v))))"

text \<open>A configuration file with the three hazardous keys, and the value it denotes.\<close>

definition hazard_text :: jstring where
  "hazard_text = js (''{'' @ [DQT] @ ''__proto__'' @ [DQT] @ '':{'' @ [DQT] @ ''polluted'' @ [DQT]
     @ '':true},'' @ [DQT] @ ''constructor'' @ [DQT] @ '':'' @ [DQT] @ ''x'' @ [DQT]
     @ '','' @ [DQT] @ ''prototype'' @ [DQT] @ '':null}'')"

definition hazard_value :: json where
  "hazard_value = JObj [(js ''__proto__'', JObj [(js ''polluted'', JBool True)]),
     (js ''constructor'', JStr (js ''x'')), (js ''prototype'', JNull)]"

definition hazard_fs :: "string \<rightharpoonup> file_entry" where
  "hazard_fs = [''config.json'' \<mapsto> \<lparr>file_size = length hazard_text, file_text = Some hazard_text\<rparr>]"

declare ms.simps [simp del]

lemma clear_caps_nogroups: "groups a = {} \<Longrightarrow> clear_caps a cp = cp"
  by (simp add: clear_caps_def ms.simps)

lemma mk_seq_Nil: "mk_seq [] = Eps"
  by (simp add: mk_seq_def)

lemma mk_seq_Cons: "mk_seq (a # rs) = Seq a (mk_seq rs)"
  by (simp add: mk_seq_def)

lemma ms_lit_Cons:
  "ms (mk_seq (Chr c # rs)) s cp = (case s of [] \<Rightarrow> [] | x # xs \<Rightarrow> if x = c then ms (mk_seq rs) xs cp else [])"
  by (cases s) (simp_all add: mk_seq_Cons ms.simps)

lemma ms_lit_append: "ms (mk_seq (lit w @ rs)) (w @ t) cp = ms (mk_seq rs) t cp"
  by (induction w) (simp_all add: lit_def ms_lit_Cons)

lemma ms_lit_fail: "take (length w) s \<noteq> w \<Longrightarrow> ms (mk_seq (lit w @ rs)) s cp = []"
proof (induction w arbitrary: s)
  case Nil
  then show ?case by simp
next
  case (Cons a w)
  then show ?case
    by (cases s) (auto simp: lit_def ms_lit_Cons)
qed

lemma ms_lit:
  "ms (mk_seq (lit w @ rs)) s cp =
     (if take (length w) s = w then ms (mk_seq rs) (drop (length w) s) cp else [])"
proof (cases "take (length w) s = w")
  case True
  then have "s = w @ drop (length w) s"
    by (metis append_take_drop_id)
  then show ?thesis
    using ms_lit_append[of w rs "drop (length w) s" cp] True by simp
next
  case False
  then show ?thesis by (simp add: ms_lit_fail)
qed

lemma ms_lit0:
  "ms (mk_seq (lit w)) s cp = (if take (length w) s = w then [(drop (length w) s, cp)] else [])"
  using ms_lit[of w "[]" s cp] by (simp add: mk_seq_Nil ms.simps)

lemma ms_Cls_seq:
  "ms (Seq (Cls ng cs) r) s cp =
     (case s of [] \<Rightarrow> [] | x # xs \<Rightarrow> if in_class ng cs x then ms r xs cp else [])"
  by (cases s) (simp_all add: ms.simps)

lemma ms_Star_Cls_seq:
  assumes "\<And>c t. in_class ng cs c \<Longrightarrow> ms r (c # t) cp = []"
  shows "ms (Seq (Star (Cls ng cs)) r) s cp = ms r (dropWhile (in_class ng cs) s) cp"
proof (induction s)
  case Nil
  then show ?case by (simp add: clear_caps_def ms.simps)
next
  case (Cons x xs)
  show ?case
  proof (cases "in_class ng cs x")
    case True
    have "ms (Seq (Star (Cls ng cs)) r) (x # xs) cp
          = ms (Seq (Star (Cls ng cs)) r) xs cp @ ms r (x # xs) cp"
      using True by (simp add: clear_caps_def ms.simps)
    then show ?thesis using True Cons assms by simp
  next
    case False
    then show ?thesis by (simp add: clear_caps_def ms.simps)
  qed
qed

lemma ms_Plus_Cls_seq:
  assumes "\<And>c t. in_class ng cs c \<Longrightarrow> ms r (c # t) cp = []"
  shows "ms (Seq (Plus (Cls ng cs)) r) s cp =
     (case s of [] \<Rightarrow> [] | x # xs \<Rightarrow>
        if in_class ng cs x then ms r (dropWhile (in_class ng cs) s) cp else [])"
proof (cases s)
  case Nil
  then show ?thesis by (simp add: clear_caps_def ms.simps)
next
  case (Cons x xs)
  show ?thesis
  proof (cases "in_class ng cs x")
    case True
    have "ms (Seq (Plus (Cls ng cs)) r) (x # xs) cp = ms (Seq (Star (Cls ng cs)) r) xs cp"
      using True by (simp add: clear_caps_def ms.simps)
    then show ?thesis using True Cons ms_Star_Cls_seq[OF assms] by simp
  next
    case False
    then show ?thesis using Cons by (simp add: clear_caps_def ms.simps)
  qed
qed

text \<open>Every way a starred class can stop, longest first.\<close>

lemma upt_rev_shift:
  "map f (rev [0 ..< Suc (Suc n)]) = map (\<lambda>k. f (Suc k)) (rev [0 ..< Suc n]) @ [f 0]"
proof -
  have "[0 ..< Suc (Suc n)] = 0 # map Suc [0 ..< Suc n]"
    by (metis map_Suc_upt upt_conv_Cons zero_less_Suc)
  then show ?thesis by (simp only: rev.simps rev_map map_append map_map comp_def list.map)
qed

lemma ms_Star_Cls:
  "ms (Star (Cls ng cs)) s cp =
     map (\<lambda>k. (drop k s, cp)) (rev [0 ..< Suc (length (takeWhile (in_class ng cs) s))])"
proof (induction s)
  case Nil
  then show ?case by (simp add: clear_caps_def ms.simps)
next
  case (Cons x xs)
  show ?case
  proof (cases "in_class ng cs x")
    case True
    have "ms (Star (Cls ng cs)) (x # xs) cp = ms (Star (Cls ng cs)) xs cp @ [(x # xs, cp)]"
      using True by (simp add: clear_caps_def ms.simps)
    also have "\<dots> = map (\<lambda>k. (drop (Suc k) (x # xs), cp))
                         (rev [0 ..< Suc (length (takeWhile (in_class ng cs) xs))])
                     @ [(drop 0 (x # xs), cp)]"
      using Cons by simp
    also have "\<dots> = map (\<lambda>k. (drop k (x # xs), cp))
                         (rev [0 ..< Suc (Suc (length (takeWhile (in_class ng cs) xs)))])"
      using upt_rev_shift[of "\<lambda>k. (drop k (x # xs), cp)" "length (takeWhile (in_class ng cs) xs)"]
      by simp
    finally show ?thesis using True by simp
  next
    case False
    then show ?thesis by (simp add: clear_caps_def ms.simps)
  qed
qed

lemma concat_only_first:
  assumes "\<And>k. k < n \<Longrightarrow> F k = []"
  shows "concat (map F (rev [0 ..< Suc n])) = F n"
proof -
  have "concat (map F (rev [0 ..< n])) = []"
    using assms by (auto simp: concat_eq_Nil_conv)
  then show ?thesis by simp
qed

lemma in_class_ident_start [simp]: "in_class False ident_start c = id_start c"
  by (auto simp: in_class_def ident_start_def id_start_def cu_def)

lemma in_class_ident_part [simp]: "in_class False ident_part c = id_part c"
  by (auto simp: in_class_def ident_part_def id_part_def)

lemma in_class_space [simp]: "in_class False [CSpace] c = is_space c"
  by (simp add: in_class_def)

lemma space_not_id_start: "is_space c \<Longrightarrow> \<not> id_start c"
  by (auto simp: is_space_def id_start_def cu_def)

lemma id_start_part: "id_start c \<Longrightarrow> id_part c"
  by (auto simp: id_start_def id_part_def is_word_def)

lemma test1: "\<not> id_part (CHR ''='')" "\<not> id_part (CHR ''('')" "\<not> is_space (CHR ''f'')"
  by (simp_all add: id_part_def is_word_def is_digit_def cu_def is_space_def)

lemma marker_tail_unfold: "marker_tail = CHR ''='' # DQT # ''TodoWrite'' @ [DQT, CHR '';'']"
  by (simp add: marker_tail_def)

lemma length_marker_tail: "length marker_tail = 13"
  by (simp add: marker_tail_def)

lemma ms_marker_tail:
  "ms (mk_seq (lit marker_tail)) s cp = (if take 13 s = marker_tail then [(drop 13 s, cp)] else [])"
  using ms_lit0[of marker_tail s cp] by (simp add: length_marker_tail)

lemma not_id_part_eq: "\<not> id_part (CHR ''='')"
  by (simp add: id_part_def is_word_def is_digit_def cu_def)

lemma ms_marker_tail_id_part:
  assumes "id_part c"
  shows "ms (mk_seq (lit marker_tail)) (c # t) cp = []"
proof -
  have "c \<noteq> CHR ''=''"
    using assms not_id_part_eq by auto
  then have "take 13 (c # t) \<noteq> marker_tail"
    by (auto simp: marker_tail_unfold)
  then show ?thesis
    by (simp only: ms_marker_tail if_False)
qed

lemma ms_ident_tail:
  "ms (Seq (Cls False ident_start) (Seq (Star (Cls False ident_part)) (mk_seq (lit marker_tail)))) s cp =
     (case s of [] \<Rightarrow> []
      | c # v \<Rightarrow> if id_start c then ms (mk_seq (lit marker_tail)) (dropWhile id_part v) cp else [])"
proof -
  have "\<And>v. ms (Seq (Star (Cls False ident_part)) (mk_seq (lit marker_tail))) v cp
         = ms (mk_seq (lit marker_tail)) (dropWhile (in_class False ident_part) v) cp"
    by (rule ms_Star_Cls_seq) (simp add: ms_marker_tail_id_part)
  then show ?thesis
    by (simp add: ms_Cls_seq split: list.splits) (metis in_class_ident_part dropWhile_cong)
qed



lemma ms_ident_tail_space:
  "is_space c \<Longrightarrow>
   ms (Seq (Cls False ident_start) (Seq (Star (Cls False ident_part)) (mk_seq (lit marker_tail))))
     (c # t) cp = []"
  by (simp add: ms_ident_tail space_not_id_start)



lemma ms_blank_ident_tail:
  "ms (Seq (Plus (Cls False [CSpace]))
        (Seq (Cls False ident_start) (Seq (Star (Cls False ident_part)) (mk_seq (lit marker_tail))))) s cp =
     (case s of [] \<Rightarrow> []
      | x # xs \<Rightarrow>
          if is_space x then
            ms (Seq (Cls False ident_start) (Seq (Star (Cls False ident_part)) (mk_seq (lit marker_tail))))
               (dropWhile is_space s) cp
          else [])"
proof -
  have "ms (Seq (Plus (Cls False [CSpace]))
        (Seq (Cls False ident_start) (Seq (Star (Cls False ident_part)) (mk_seq (lit marker_tail))))) s cp =
     (case s of [] \<Rightarrow> []
      | x # xs \<Rightarrow>
          if in_class False [CSpace] x then
            ms (Seq (Cls False ident_start) (Seq (Star (Cls False ident_part)) (mk_seq (lit marker_tail))))
               (dropWhile (in_class False [CSpace]) s) cp
          else [])"
    by (rule ms_Plus_Cls_seq) (simp add: ms_ident_tail_space)
  moreover have "dropWhile (in_class False [CSpace]) s = dropWhile is_space s"
    by (rule dropWhile_cong) simp_all
  ultimately show ?thesis by (simp split: list.splits)
qed




text \<open>An identifier followed by the marker's tail, read deterministically and declaratively.\<close>

lemma ident_tail_iff:
  "(ms (Seq (Cls False ident_start) (Seq (Star (Cls False ident_part)) (mk_seq (lit marker_tail)))) s cp \<noteq> [])
   \<longleftrightarrow> (\<exists>idn rest. s = idn @ marker_tail @ rest \<and> is_ident idn)"
proof
  assume "ms (Seq (Cls False ident_start) (Seq (Star (Cls False ident_part)) (mk_seq (lit marker_tail)))) s cp \<noteq> []"
  then obtain c v where s: "s = c # v" and c: "id_start c"
    and t: "take 13 (dropWhile id_part v) = marker_tail"
    by (auto simp: ms_ident_tail ms_marker_tail split: list.splits if_splits)
  have "v = takeWhile id_part v @ dropWhile id_part v" by simp
  also have "dropWhile id_part v = marker_tail @ drop 13 (dropWhile id_part v)"
    using t by (metis append_take_drop_id)
  finally have "s = (c # takeWhile id_part v) @ marker_tail @ drop 13 (dropWhile id_part v)"
    using s by simp
  moreover have "is_ident (c # takeWhile id_part v)"
    using c by (auto simp: is_ident_def dest: set_takeWhileD)
  ultimately show "\<exists>idn rest. s = idn @ marker_tail @ rest \<and> is_ident idn" by blast
next
  assume "\<exists>idn rest. s = idn @ marker_tail @ rest \<and> is_ident idn"
  then obtain idn rest where s: "s = idn @ marker_tail @ rest" and i: "is_ident idn" by blast
  from i obtain c cs where idn: "idn = c # cs" and c: "id_start c" and cs: "\<forall>d \<in> set cs. id_part d"
    by (auto simp: is_ident_def split: list.splits)
  have "dropWhile id_part (cs @ marker_tail @ rest) = dropWhile id_part (marker_tail @ rest)"
    using cs by (simp add: dropWhile_append2)
  also have "\<dots> = marker_tail @ rest"
    using not_id_part_eq by (simp add: marker_tail_unfold)
  finally have "take 13 (dropWhile id_part (cs @ marker_tail @ rest)) = marker_tail"
    by (simp add: length_marker_tail)
  then show "ms (Seq (Cls False ident_start) (Seq (Star (Cls False ident_part)) (mk_seq (lit marker_tail)))) s cp \<noteq> []"
    using s idn c by (simp add: ms_ident_tail ms_marker_tail)
qed




lemma is_ident_not_space: "is_ident idn \<Longrightarrow> \<exists>c cs. idn = c # cs \<and> \<not> is_space c"
  by (cases idn) (auto simp: is_ident_def dest: space_not_id_start)

lemma blank_ident_tail_iff:
  "(ms (Seq (Plus (Cls False [CSpace]))
        (Seq (Cls False ident_start) (Seq (Star (Cls False ident_part)) (mk_seq (lit marker_tail))))) s cp \<noteq> [])
   \<longleftrightarrow> (\<exists>ws idn rest. s = ws @ idn @ marker_tail @ rest \<and> is_blank ws \<and> is_ident idn)"
proof
  assume a: "ms (Seq (Plus (Cls False [CSpace]))
        (Seq (Cls False ident_start) (Seq (Star (Cls False ident_part)) (mk_seq (lit marker_tail))))) s cp \<noteq> []"
  then obtain x xs where s: "s = x # xs" and x: "is_space x"
    and m: "ms (Seq (Cls False ident_start) (Seq (Star (Cls False ident_part)) (mk_seq (lit marker_tail))))
               (dropWhile is_space s) cp \<noteq> []"
    by (auto simp: ms_blank_ident_tail split: list.splits if_splits)
  from m obtain idn rest where d: "dropWhile is_space s = idn @ marker_tail @ rest" and i: "is_ident idn"
    using ident_tail_iff by blast
  have "s = takeWhile is_space s @ idn @ marker_tail @ rest"
    using d by (metis takeWhile_dropWhile_id)
  moreover have "is_blank (takeWhile is_space s)"
    using s x by (auto simp: is_blank_def dest: set_takeWhileD)
  ultimately show "\<exists>ws idn rest. s = ws @ idn @ marker_tail @ rest \<and> is_blank ws \<and> is_ident idn"
    using i by blast
next
  assume "\<exists>ws idn rest. s = ws @ idn @ marker_tail @ rest \<and> is_blank ws \<and> is_ident idn"
  then obtain ws idn rest where s: "s = ws @ idn @ marker_tail @ rest"
    and w: "is_blank ws" and i: "is_ident idn" by blast
  from w obtain x xs where ws: "ws = x # xs" and x: "is_space x" and all: "\<forall>c \<in> set ws. is_space c"
    by (cases ws) (auto simp: is_blank_def)
  from i obtain c cs where idn: "idn = c # cs" and c: "\<not> is_space c"
    using is_ident_not_space by blast
  have "dropWhile is_space s = dropWhile is_space (idn @ marker_tail @ rest)"
    using all s by (simp add: dropWhile_append2)
  also have "\<dots> = idn @ marker_tail @ rest"
    using idn c by simp
  finally have "ms (Seq (Cls False ident_start) (Seq (Star (Cls False ident_part)) (mk_seq (lit marker_tail))))
               (dropWhile is_space s) cp \<noteq> []"
    using ident_tail_iff i by auto
  then show "ms (Seq (Plus (Cls False [CSpace]))
        (Seq (Cls False ident_start) (Seq (Star (Cls False ident_part)) (mk_seq (lit marker_tail))))) s cp \<noteq> []"
    using s ws x by (simp add: ms_blank_ident_tail)
qed

lemma body_marker:
  "body TODO_WRITE_MARKER =
     Seq (Group 1 (Alt (mk_seq (lit ''var'')) (Alt (mk_seq (lit ''let'')) (mk_seq (lit ''const'')))))
       (Seq (Plus (Cls False [CSpace]))
         (Seq (Cls False ident_start) (Seq (Star (Cls False ident_part)) (mk_seq (lit marker_tail)))))"
  by (simp add: TODO_WRITE_MARKER_def mk_seq_Cons marker_tail_def)

lemma take_as_diff: "take (length s - (length s - n)) s = take n s"
  by (cases "n \<le> length s") simp_all

lemma ms_lit_n:
  "length w = n \<Longrightarrow>
   ms (mk_seq (lit w)) s cp = (if take n s = w then [(drop n s, cp)] else [])"
  using ms_lit0[of w s cp] by simp

lemma ms_keyword:
  "ms (Group 1 (Alt (mk_seq (lit ''var'')) (Alt (mk_seq (lit ''let'')) (mk_seq (lit ''const''))))) s cp =
     (if take 3 s = ''var'' then [(drop 3 s, (1, ''var'') # cp)] else [])
     @ (if take 3 s = ''let'' then [(drop 3 s, (1, ''let'') # cp)] else [])
     @ (if take 5 s = ''const'' then [(drop 5 s, (1, ''const'') # cp)] else [])"
proof -
  have v: "ms (mk_seq (lit ''var'')) s cp = (if take 3 s = ''var'' then [(drop 3 s, cp)] else [])"
    by (rule ms_lit_n) simp
  have l: "ms (mk_seq (lit ''let'')) s cp = (if take 3 s = ''let'' then [(drop 3 s, cp)] else [])"
    by (rule ms_lit_n) simp
  have c: "ms (mk_seq (lit ''const'')) s cp = (if take 5 s = ''const'' then [(drop 5 s, cp)] else [])"
    by (rule ms_lit_n) simp
  show ?thesis
    unfolding ms.simps(10) ms.simps(6) v l c
    by (simp add: take_as_diff)
qed


lemma ms_keyword_seq:
  "ms (Seq (Group 1 (Alt (mk_seq (lit ''var'')) (Alt (mk_seq (lit ''let'')) (mk_seq (lit ''const''))))) r) s cp =
     (if take 3 s = ''var'' then ms r (drop 3 s) ((1, ''var'') # cp) else [])
     @ (if take 3 s = ''let'' then ms r (drop 3 s) ((1, ''let'') # cp) else [])
     @ (if take 5 s = ''const'' then ms r (drop 5 s) ((1, ''const'') # cp) else [])"
  unfolding ms.simps(5) ms_keyword by simp

theorem ms_marker_iff: "ms (body TODO_WRITE_MARKER) t [] \<noteq> [] \<longleftrightarrow> marker_at t"
proof
  assume "ms (body TODO_WRITE_MARKER) t [] \<noteq> []"
  then obtain kw n where kw: "take n t = kw" "kw \<in> {''var'', ''let'', ''const''}"
    and r: "\<exists>cp. ms (Seq (Plus (Cls False [CSpace]))
         (Seq (Cls False ident_start) (Seq (Star (Cls False ident_part)) (mk_seq (lit marker_tail)))))
         (drop n t) cp \<noteq> []"
    unfolding body_marker ms_keyword_seq
    by (auto split: if_splits)
  from r obtain ws idn rest where d: "drop n t = ws @ idn @ marker_tail @ rest"
    and w: "is_blank ws" and i: "is_ident idn"
    using blank_ident_tail_iff by blast
  have "t = kw @ ws @ idn @ marker_tail @ rest"
    using kw d by (metis append_take_drop_id)
  then show "marker_at t"
    unfolding marker_at_def using kw w i by blast
next
  assume "marker_at t"
  then obtain kw ws idn rest where t: "t = kw @ ws @ idn @ marker_tail @ rest"
    and kw: "kw \<in> {''var'', ''let'', ''const''}" and w: "is_blank ws" and i: "is_ident idn"
    unfolding marker_at_def by blast
  have r: "\<And>cp. ms (Seq (Plus (Cls False [CSpace]))
         (Seq (Cls False ident_start) (Seq (Star (Cls False ident_part)) (mk_seq (lit marker_tail)))))
         (ws @ idn @ marker_tail @ rest) cp \<noteq> []"
    using blank_ident_tail_iff w i by blast
  from kw show "ms (body TODO_WRITE_MARKER) t [] \<noteq> []"
    unfolding body_marker ms_keyword_seq
    using r t by auto
qed

declare scan.simps [simp del]

lemma scan_None_iff:
  "scan R s i = None \<longleftrightarrow> (\<forall>j \<le> length s. ms (body R) (drop j s) [] = [])"
proof (induction s arbitrary: i)
  case Nil
  then show ?case
    by (simp add: scan.simps split: list.splits)
next
  case (Cons c t)
  show ?case
  proof (cases "ms (body R) (c # t) []")
    case Nil
    then have "scan R (c # t) i = scan R t (Suc i)"
      by (simp add: scan.simps)
    moreover have "(\<forall>j \<le> length (c # t). ms (body R) (drop j (c # t)) [] = [])
        \<longleftrightarrow> (\<forall>j \<le> length t. ms (body R) (drop j t) [] = [])"
    proof
      assume a: "\<forall>j \<le> length (c # t). ms (body R) (drop j (c # t)) [] = []"
      show "\<forall>j \<le> length t. ms (body R) (drop j t) [] = []"
      proof (intro allI impI)
        fix j assume "j \<le> length t"
        then show "ms (body R) (drop j t) [] = []"
          using a[rule_format, of "Suc j"] by simp
      qed
    next
      assume a: "\<forall>j \<le> length t. ms (body R) (drop j t) [] = []"
      show "\<forall>j \<le> length (c # t). ms (body R) (drop j (c # t)) [] = []"
      proof (intro allI impI)
        fix j assume j: "j \<le> length (c # t)"
        show "ms (body R) (drop j (c # t)) [] = []"
        proof (cases j)
          case 0
          then show ?thesis using Nil by simp
        next
          case (Suc j')
          then show ?thesis using a j by simp
        qed
      qed
    qed
    ultimately show ?thesis using Cons by simp
  next
    case (Cons a list)
    then have "scan R (c # t) i \<noteq> None"
      by (simp add: scan.simps split: prod.splits)
    moreover have "ms (body R) (drop 0 (c # t)) [] \<noteq> []"
      using Cons by simp
    ultimately show ?thesis by blast
  qed
qed

lemma scan_first:
  assumes "k \<le> length s"
    and "\<forall>j < k. ms (body R) (drop j s) [] = []"
    and "ms (body R) (drop k s) [] = (s', cp) # rs"
  shows "scan R s i = Some \<lparr>index = i + k,
           matched = take (length (drop k s) - length s') (drop k s),
           captures = map (map_of cp) [1 ..< Suc (ngroups R)]\<rparr>"
  using assms
proof (induction k arbitrary: s i)
  case 0
  then show ?case by (simp add: scan.simps)
next
  case (Suc k)
  then obtain c t where s: "s = c # t" by (cases s) auto
  have n: "ms (body R) s [] = []"
    using Suc.prems(2)[rule_format, of 0] by simp
  have "\<forall>j < k. ms (body R) (drop j t) [] = []"
  proof (intro allI impI)
    fix j assume "j < k"
    then show "ms (body R) (drop j t) [] = []"
      using Suc.prems(2)[rule_format, of "Suc j"] s by simp
  qed
  then have "scan R t (Suc i) = Some \<lparr>index = Suc i + k,
           matched = take (length (drop k t) - length s') (drop k t),
           captures = map (map_of cp) [1 ..< Suc (ngroups R)]\<rparr>"
    using Suc.IH[of t "Suc i"] Suc.prems s by simp
  then show ?case
    using n s by (simp add: scan.simps)
qed

lemma scan_SomeD:
  assumes "scan R s i = Some m"
  shows "\<exists>k s' cp rs. k \<le> length s \<and> index m = i + k
     \<and> (\<forall>j < k. ms (body R) (drop j s) [] = [])
     \<and> ms (body R) (drop k s) [] = (s', cp) # rs
     \<and> matched m = take (length (drop k s) - length s') (drop k s)
     \<and> captures m = map (map_of cp) [1 ..< Suc (ngroups R)]"
proof -
  have "\<not> (\<forall>j \<le> length s. ms (body R) (drop j s) [] = [])"
    using assms scan_None_iff[of R s i] by simp
  then obtain j0 where j0: "j0 \<le> length s" "ms (body R) (drop j0 s) [] \<noteq> []"
    by blast
  define k where "k = (LEAST j. j \<le> length s \<and> ms (body R) (drop j s) [] \<noteq> [])"
  have k: "k \<le> length s \<and> ms (body R) (drop k s) [] \<noteq> []"
    unfolding k_def using j0 by (rule_tac LeastI[of _ j0]) simp
  have least: "\<forall>j < k. ms (body R) (drop j s) [] = []"
  proof (intro allI impI)
    fix j assume j: "j < k"
    show "ms (body R) (drop j s) [] = []"
    proof (rule ccontr)
      assume "ms (body R) (drop j s) [] \<noteq> []"
      then have "k \<le> j"
        unfolding k_def using j k by (intro Least_le) simp
      then show False using j by simp
    qed
  qed
  obtain s' cp rs where h: "ms (body R) (drop k s) [] = (s', cp) # rs"
    using k by (cases "ms (body R) (drop k s) []") auto
  have "scan R s i = Some \<lparr>index = i + k,
           matched = take (length (drop k s) - length s') (drop k s),
           captures = map (map_of cp) [1 ..< Suc (ngroups R)]\<rparr>"
    using scan_first[OF _ least h] k by blast
  then have "m = \<lparr>index = i + k,
           matched = take (length (drop k s) - length s') (drop k s),
           captures = map (map_of cp) [1 ..< Suc (ngroups R)]\<rparr>"
    using assms by simp
  then show ?thesis
    using k least h by (intro exI[of _ k] exI[of _ s'] exI[of _ cp] exI[of _ rs]) simp
qed

lemma ms_Seq_Eps: "ms (Seq a Eps) s cp = ms a s cp"
proof -
  have "concat (map (\<lambda>(s', cp'). ms Eps s' cp') xs) = xs" for xs :: "(string \<times> caps) list"
    by (induction xs) (auto simp: ms.simps)
  then show ?thesis by (simp only: ms.simps(5))
qed

lemma ms_ident_inner:
  "ms (mk_seq [Cls False ident_start, Star (Cls False ident_part)]) u cp =
     (case u of [] \<Rightarrow> []
      | c # v \<Rightarrow>
          if id_start c
          then map (\<lambda>k. (drop k v, cp)) (rev [0 ..< Suc (length (takeWhile id_part v))])
          else [])"
proof -
  have "takeWhile (in_class False ident_part) v = takeWhile id_part v" for v
    by (rule takeWhile_cong) simp_all
  then show ?thesis
    by (simp add: mk_seq_Cons mk_seq_Nil ms_Cls_seq ms_Seq_Eps ms_Star_Cls split: list.splits)
qed

lemma ms_ident_group:
  assumes "\<And>c t cp'. id_part c \<Longrightarrow> ms R (c # t) cp' = []"
  shows "ms (Seq (Group g (mk_seq [Cls False ident_start, Star (Cls False ident_part)])) R) u cp =
     (case u of [] \<Rightarrow> []
      | c # v \<Rightarrow>
          if id_start c
          then ms R (dropWhile id_part v) ((g, c # takeWhile id_part v) # cp)
          else [])"
proof (cases u)
  case Nil
  then show ?thesis by (simp add: ms.simps(5) ms.simps(10) ms_ident_inner)
next
  case (Cons c v)
  show ?thesis
  proof (cases "id_start c")
    case False
    then show ?thesis using Cons by (simp add: ms.simps(5) ms.simps(10) ms_ident_inner)
  next
    case True
    define n where "n = length (takeWhile id_part v)"
    define F where "F = (\<lambda>k. ms R (drop k v) ((g, c # take k v) # cp))"
    have nl: "n \<le> length v"
      unfolding n_def by (simp add: length_takeWhile_le)
    have "ms (Seq (Group g (mk_seq [Cls False ident_start, Star (Cls False ident_part)])) R) u cp
        = concat (map (\<lambda>k. ms R (drop k v) ((g, take (length (c # v) - length (drop k v)) (c # v)) # cp))
                      (rev [0 ..< Suc n]))"
      using Cons True
      by (simp add: ms.simps(5) ms.simps(10) ms_ident_inner n_def comp_def del: upt_Suc)
    also have "\<dots> = concat (map F (rev [0 ..< Suc n]))"
    proof -
      have "k \<in> set (rev [0 ..< Suc n]) \<Longrightarrow>
            take (length (c # v) - length (drop k v)) (c # v) = c # take k v" for k
        using nl by (auto simp: Suc_diff_le)
      then show ?thesis
        unfolding F_def by (intro arg_cong[where f = concat] map_cong) auto
    qed
    also have "\<dots> = F n"
    proof (rule concat_only_first)
      fix k assume k: "k < n"
      then have kt: "k < length (takeWhile id_part v)" by (simp add: n_def)
      have kv: "k < length v"
        using k nl by simp
      have "takeWhile id_part v ! k \<in> set (takeWhile id_part v)"
        using kt by (rule nth_mem)
      then have "id_part (takeWhile id_part v ! k)"
        by (rule set_takeWhileD[THEN conjunct2])
      then have p: "id_part (v ! k)"
        using kt by (simp add: takeWhile_nth)
      have "drop k v = v ! k # drop (Suc k) v"
        using kv by (simp add: Cons_nth_drop_Suc)
      then show "F k = []"
        unfolding F_def using assms[OF p] by simp
    qed
    also have "\<dots> = ms R (dropWhile id_part v) ((g, c # takeWhile id_part v) # cp)"
      unfolding F_def n_def
      by (simp only: dropWhile_eq_drop[symmetric] takeWhile_eq_take[symmetric])
    finally show ?thesis using Cons True by simp
  qed
qed

lemma body_is_enabled:
  "body IS_ENABLED_FN_RE =
     mk_seq (lit ''isEnabled(){return!''
             @ [Group 1 (mk_seq [Cls False ident_start, Star (Cls False ident_part)])]
             @ lit ''()}'')"
  by (simp add: IS_ENABLED_FN_RE_def)

lemma ms_call_tail:
  "ms (mk_seq (lit ''()}'')) s cp = (if take 3 s = ''()}'' then [(drop 3 s, cp)] else [])"
  by (rule ms_lit_n) simp

lemma not_id_part_paren: "\<not> id_part (CHR ''('')"
  by (simp add: id_part_def is_word_def is_digit_def cu_def)

lemma ms_call_tail_id_part:
  assumes "id_part c"
  shows "ms (mk_seq (lit ''()}'')) (c # t) cp = []"
proof -
  have "c \<noteq> CHR ''(''"
    using assms not_id_part_paren by auto
  then show ?thesis
    by (simp add: ms_call_tail)
qed

lemma ms_dispatch:
  "ms (body IS_ENABLED_FN_RE) t cp =
     (if take 19 t = ''isEnabled(){return!'' then
        (case drop 19 t of [] \<Rightarrow> []
         | c # v \<Rightarrow>
             if id_start c \<and> take 3 (dropWhile id_part v) = ''()}''
             then [(drop 3 (dropWhile id_part v), (1, c # takeWhile id_part v) # cp)]
             else [])
      else [])"
proof -
  have l: "length ''isEnabled(){return!'' = 19" by simp
  have "ms (body IS_ENABLED_FN_RE) t cp =
     (if take 19 t = ''isEnabled(){return!'' then
        ms (Seq (Group 1 (mk_seq [Cls False ident_start, Star (Cls False ident_part)]))
                (mk_seq (lit ''()}''))) (drop 19 t) cp
      else [])"
    unfolding body_is_enabled ms_lit l by (simp only: append_Cons append_Nil mk_seq_Cons)
  also have "ms (Seq (Group 1 (mk_seq [Cls False ident_start, Star (Cls False ident_part)]))
                (mk_seq (lit ''()}''))) (drop 19 t) cp =
     (case drop 19 t of [] \<Rightarrow> []
      | c # v \<Rightarrow>
          if id_start c
          then ms (mk_seq (lit ''()}'')) (dropWhile id_part v) ((1, c # takeWhile id_part v) # cp)
          else [])"
    by (rule ms_ident_group) (rule ms_call_tail_id_part)
  finally show ?thesis
    by (simp add: ms_call_tail split: list.splits)
qed

lemma is_ident_split:
  "is_ident n \<Longrightarrow> \<exists>c cs. n = c # cs \<and> id_start c \<and> (\<forall>d \<in> set cs. id_part d)"
  by (cases n) (auto simp: is_ident_def)

lemma length_dispatch: "length (dispatch n) = length n + 22"
  by (simp add: dispatch_def)

lemma dispatch_at_ms:
  assumes "dispatch_at n t"
  shows "ms (body IS_ENABLED_FN_RE) t cp = [(drop (length (dispatch n)) t, [(1, n)] @ cp)]"
proof -
  from assms obtain rest where t: "t = dispatch n @ rest" and i: "is_ident n"
    by (auto simp: dispatch_at_def)
  from i obtain c cs where n: "n = c # cs" and c: "id_start c" and cs: "\<forall>d \<in> set cs. id_part d"
    using is_ident_split by blast
  have t': "t = ''isEnabled(){return!'' @ c # cs @ ''()}'' @ rest"
    using t n by (simp add: dispatch_def)
  have d: "dropWhile id_part (cs @ ''()}'' @ rest) = ''()}'' @ rest"
    using cs not_id_part_paren by (simp add: dropWhile_append2)
  have k: "takeWhile id_part (cs @ ''()}'' @ rest) = cs"
    using cs not_id_part_paren by (simp add: takeWhile_append2)
  have "drop (length (dispatch n)) t = rest"
    using t by simp
  then show ?thesis
    unfolding ms_dispatch using t' c d k n by simp
qed

lemma ms_dispatch_D:
  assumes "ms (body IS_ENABLED_FN_RE) t cp = x # xs"
  shows "\<exists>n. dispatch_at n t \<and> x = (drop (length (dispatch n)) t, [(1, n)] @ cp) \<and> xs = []"
proof -
  from assms obtain c v where p: "take 19 t = ''isEnabled(){return!''"
    and d: "drop 19 t = c # v" and c: "id_start c"
    and e: "take 3 (dropWhile id_part v) = ''()}''"
    unfolding ms_dispatch by (auto split: if_splits list.splits)
  define n where "n = c # takeWhile id_part v"
  have i: "is_ident n"
    using c by (auto simp: n_def is_ident_def dest: set_takeWhileD)
  have "v = takeWhile id_part v @ dropWhile id_part v" by simp
  also have "dropWhile id_part v = ''()}'' @ drop 3 (dropWhile id_part v)"
    using e by (metis append_take_drop_id)
  finally have v: "v = takeWhile id_part v @ ''()}'' @ drop 3 (dropWhile id_part v)" .
  have "t = take 19 t @ drop 19 t" by simp
  then have "t = ''isEnabled(){return!'' @ c # v"
    using p d by simp
  then have "t = dispatch n @ drop 3 (dropWhile id_part v)"
    using v by (simp add: dispatch_def n_def)
  then have "dispatch_at n t"
    using i by (auto simp: dispatch_at_def)
  then show ?thesis
    using dispatch_at_ms[of n t cp] assms by auto
qed

lemma ms_dispatch_iff: "ms (body IS_ENABLED_FN_RE) t cp \<noteq> [] \<longleftrightarrow> (\<exists>n. dispatch_at n t)"
proof
  assume "ms (body IS_ENABLED_FN_RE) t cp \<noteq> []"
  then obtain x xs where "ms (body IS_ENABLED_FN_RE) t cp = x # xs"
    by (cases "ms (body IS_ENABLED_FN_RE) t cp") auto
  then show "\<exists>n. dispatch_at n t"
    using ms_dispatch_D by blast
next
  assume "\<exists>n. dispatch_at n t"
  then show "ms (body IS_ENABLED_FN_RE) t cp \<noteq> []"
    using dispatch_at_ms by auto
qed

lemma scan_iff_first:
  "scan R s 0 = Some m \<longleftrightarrow>
     (\<exists>k s' cp rs. first_at (\<lambda>t. ms (body R) t [] \<noteq> []) s k
        \<and> ms (body R) (drop k s) [] = (s', cp) # rs
        \<and> m = \<lparr>index = k, matched = take (length (drop k s) - length s') (drop k s),
                captures = map (map_of cp) [1 ..< Suc (ngroups R)]\<rparr>)"
proof
  assume "scan R s 0 = Some m"
  from scan_SomeD[OF this] obtain k s' cp rs where
    k: "k \<le> length s" "index m = k" "\<forall>j < k. ms (body R) (drop j s) [] = []"
       "ms (body R) (drop k s) [] = (s', cp) # rs"
       "matched m = take (length (drop k s) - length s') (drop k s)"
       "captures m = map (map_of cp) [1 ..< Suc (ngroups R)]"
    by auto
  have "first_at (\<lambda>t. ms (body R) t [] \<noteq> []) s k"
    using k by (simp add: first_at_def)
  moreover have "m = \<lparr>index = k, matched = take (length (drop k s) - length s') (drop k s),
                captures = map (map_of cp) [1 ..< Suc (ngroups R)]\<rparr>"
    using k by simp
  ultimately show "\<exists>k s' cp rs. first_at (\<lambda>t. ms (body R) t [] \<noteq> []) s k
        \<and> ms (body R) (drop k s) [] = (s', cp) # rs
        \<and> m = \<lparr>index = k, matched = take (length (drop k s) - length s') (drop k s),
                captures = map (map_of cp) [1 ..< Suc (ngroups R)]\<rparr>"
    using k(4) by blast
next
  assume "\<exists>k s' cp rs. first_at (\<lambda>t. ms (body R) t [] \<noteq> []) s k
        \<and> ms (body R) (drop k s) [] = (s', cp) # rs
        \<and> m = \<lparr>index = k, matched = take (length (drop k s) - length s') (drop k s),
                captures = map (map_of cp) [1 ..< Suc (ngroups R)]\<rparr>"
  then obtain k s' cp rs where f: "first_at (\<lambda>t. ms (body R) t [] \<noteq> []) s k"
    and h: "ms (body R) (drop k s) [] = (s', cp) # rs"
    and m: "m = \<lparr>index = k, matched = take (length (drop k s) - length s') (drop k s),
                captures = map (map_of cp) [1 ..< Suc (ngroups R)]\<rparr>"
    by blast
  have "k \<le> length s" and "\<forall>j < k. ms (body R) (drop j s) [] = []"
    using f by (auto simp: first_at_def)
  from scan_first[OF this h, of 0] show "scan R s 0 = Some m"
    using m by simp
qed

lemma scan_index_first:
  assumes "scan R s 0 = Some m"
  shows "first_at (\<lambda>t. ms (body R) t [] \<noteq> []) s (index m)"
proof -
  from scan_SomeD[OF assms] obtain k s' cp rs where
    k: "k \<le> length s" "index m = 0 + k" "\<forall>j < k. ms (body R) (drop j s) [] = []"
       "ms (body R) (drop k s) [] = (s', cp) # rs"
    by blast
  then show ?thesis
    by (simp add: first_at_def)
qed

lemma first_at_unique: "first_at P s i \<Longrightarrow> first_at P s j \<Longrightarrow> i = j"
  unfolding first_at_def by (meson linorder_neqE_nat)

lemma first_at_cong: "(\<And>t. P t = Q t) \<Longrightarrow> first_at P s i = first_at Q s i"
  by (simp add: first_at_def)




lemma str_search_marker_Some:
  "str_search s TODO_WRITE_MARKER = Some i \<longleftrightarrow> first_at marker_at s i"
proof -
  have c: "first_at (\<lambda>t. ms (body TODO_WRITE_MARKER) t [] \<noteq> []) s k = first_at marker_at s k" for k
    by (rule first_at_cong) (rule ms_marker_iff)
  show ?thesis
  proof
    assume "str_search s TODO_WRITE_MARKER = Some i"
    then obtain m where "scan TODO_WRITE_MARKER s 0 = Some m" and "index m = i"
      by (auto simp: str_search_def)
    then show "first_at marker_at s i"
      using scan_index_first[of TODO_WRITE_MARKER s m] c by simp
  next
    assume f: "first_at marker_at s i"
    then have "ms (body TODO_WRITE_MARKER) (drop i s) [] \<noteq> []"
      using ms_marker_iff by (simp add: first_at_def)
    then obtain s' cp rs where "ms (body TODO_WRITE_MARKER) (drop i s) [] = (s', cp) # rs"
      by (cases "ms (body TODO_WRITE_MARKER) (drop i s) []") auto
    then have "scan TODO_WRITE_MARKER s 0 =
        Some \<lparr>index = i, matched = take (length (drop i s) - length s') (drop i s),
              captures = map (map_of cp) [1 ..< Suc (ngroups TODO_WRITE_MARKER)]\<rparr>"
      using scan_iff_first[of TODO_WRITE_MARKER s] f c by blast
    then show "str_search s TODO_WRITE_MARKER = Some i"
      by (simp add: str_search_def)
  qed
qed

lemma str_match_dispatch:
  "str_match w IS_ENABLED_FN_RE = Some m \<longleftrightarrow>
     (\<exists>k n. first_at (\<lambda>t. \<exists>n. dispatch_at n t) w k \<and> dispatch_at n (drop k w)
        \<and> m = \<lparr>index = k, matched = dispatch n, captures = [Some n]\<rparr>)"
proof -
  have c: "first_at (\<lambda>t. ms (body IS_ENABLED_FN_RE) t [] \<noteq> []) w k
         = first_at (\<lambda>t. \<exists>n. dispatch_at n t) w k" for k
    by (rule first_at_cong) (rule ms_dispatch_iff)
  have g: "ngroups IS_ENABLED_FN_RE = 1"
    by (simp add: IS_ENABLED_FN_RE_def)
  have r: "dispatch_at n t \<Longrightarrow>
     take (length t - length (drop (length (dispatch n)) t)) t = dispatch n" for n t
    by (auto simp: dispatch_at_def)
  show ?thesis
  proof
    assume "str_match w IS_ENABLED_FN_RE = Some m"
    then obtain k s' cp rs where f: "first_at (\<lambda>t. \<exists>n. dispatch_at n t) w k"
      and h: "ms (body IS_ENABLED_FN_RE) (drop k w) [] = (s', cp) # rs"
      and m: "m = \<lparr>index = k, matched = take (length (drop k w) - length s') (drop k w),
                captures = map (map_of cp) [1 ..< Suc (ngroups IS_ENABLED_FN_RE)]\<rparr>"
      unfolding str_match_def scan_iff_first c by blast
    from ms_dispatch_D[OF h] obtain n where n: "dispatch_at n (drop k w)"
      and x: "s' = drop (length (dispatch n)) (drop k w)" "cp = [(1, n)]"
      by auto
    have "m = \<lparr>index = k, matched = dispatch n, captures = [Some n]\<rparr>"
      using m x r[OF n] g by simp
    then show "\<exists>k n. first_at (\<lambda>t. \<exists>n. dispatch_at n t) w k \<and> dispatch_at n (drop k w)
        \<and> m = \<lparr>index = k, matched = dispatch n, captures = [Some n]\<rparr>"
      using f n by blast
  next
    assume "\<exists>k n. first_at (\<lambda>t. \<exists>n. dispatch_at n t) w k \<and> dispatch_at n (drop k w)
        \<and> m = \<lparr>index = k, matched = dispatch n, captures = [Some n]\<rparr>"
    then obtain k n where f: "first_at (\<lambda>t. \<exists>n. dispatch_at n t) w k"
      and n: "dispatch_at n (drop k w)"
      and m: "m = \<lparr>index = k, matched = dispatch n, captures = [Some n]\<rparr>"
      by blast
    have h: "ms (body IS_ENABLED_FN_RE) (drop k w) [] =
               (drop (length (dispatch n)) (drop k w), [(1, n)]) # []"
      using dispatch_at_ms[OF n, of "[]"] by simp
    have "m = \<lparr>index = k,
               matched = take (length (drop k w) - length (drop (length (dispatch n)) (drop k w))) (drop k w),
               captures = map (map_of [(1, n)]) [1 ..< Suc (ngroups IS_ENABLED_FN_RE)]\<rparr>"
      using m r[OF n] g by simp
    then show "str_match w IS_ENABLED_FN_RE = Some m"
      unfolding str_match_def scan_iff_first c using f h by blast
  qed
qed

text \<open>Locating the gate, stated over the content itself.\<close>

lemma findTodoWriteGate_iff:
  "findTodoWriteGate s = Some g \<longleftrightarrow>
     (\<exists>i k n. first_at marker_at s i
        \<and> first_at (\<lambda>t. \<exists>n. dispatch_at n t) (take 8000 (drop i s)) k
        \<and> dispatch_at n (drop k (take 8000 (drop i s)))
        \<and> g = Gate (Some n))"
proof
  assume a: "findTodoWriteGate s = Some g"
  then obtain i where i: "str_search s TODO_WRITE_MARKER = Some i"
    by (auto simp: findTodoWriteGate_def split: option.splits)
  with a obtain m where m: "str_match (take 8000 (drop i s)) IS_ENABLED_FN_RE = Some m"
    and g: "g = Gate (capture m 1)"
    by (auto simp: findTodoWriteGate_def Let_def split: option.splits)
  from m obtain k n where "first_at (\<lambda>t. \<exists>n. dispatch_at n t) (take 8000 (drop i s)) k"
    and "dispatch_at n (drop k (take 8000 (drop i s)))"
    and "m = \<lparr>index = k, matched = dispatch n, captures = [Some n]\<rparr>"
    unfolding str_match_dispatch by blast
  moreover from this have "capture m 1 = Some n"
    by (simp add: capture_def)
  ultimately show "\<exists>i k n. first_at marker_at s i
        \<and> first_at (\<lambda>t. \<exists>n. dispatch_at n t) (take 8000 (drop i s)) k
        \<and> dispatch_at n (drop k (take 8000 (drop i s)))
        \<and> g = Gate (Some n)"
    using i g str_search_marker_Some by blast
next
  assume "\<exists>i k n. first_at marker_at s i
        \<and> first_at (\<lambda>t. \<exists>n. dispatch_at n t) (take 8000 (drop i s)) k
        \<and> dispatch_at n (drop k (take 8000 (drop i s)))
        \<and> g = Gate (Some n)"
  then obtain i k n where i: "first_at marker_at s i"
    and k: "first_at (\<lambda>t. \<exists>n. dispatch_at n t) (take 8000 (drop i s)) k"
    and n: "dispatch_at n (drop k (take 8000 (drop i s)))"
    and g: "g = Gate (Some n)"
    by blast
  have "str_search s TODO_WRITE_MARKER = Some i"
    using i str_search_marker_Some by blast
  moreover have "str_match (take 8000 (drop i s)) IS_ENABLED_FN_RE
       = Some \<lparr>index = k, matched = dispatch n, captures = [Some n]\<rparr>"
    unfolding str_match_dispatch using k n by blast
  ultimately show "findTodoWriteGate s = Some g"
    using g by (simp add: findTodoWriteGate_def capture_def)
qed


lemma id_part_meta: "id_part c \<Longrightarrow> c \<in> set listed_metacharacters \<Longrightarrow> c = CHR ''$''"
  by (auto simp: id_part_def is_word_def is_digit_def cu_def listed_metacharacters_def)

lemma is_ident_chars: "is_ident n \<Longrightarrow> c \<in> set n \<Longrightarrow> id_part c"
  by (cases n) (auto simp: is_ident_def id_start_part)



text \<open>
  C10. Every gate function name that \<open>findTodoWriteGate\<close> extracts is a non-empty string
  whose first character is a letter, an underscore or a dollar sign and whose other
  characters are word characters or dollar signs; of the listed metacharacters only
  \<open>$\<close> can occur in it.
\<close>

theorem extracted_name_is_identifier:
  assumes "findTodoWriteGate s = Some g"
  shows "\<exists>n. fnName g = Some n \<and> n \<noteq> [] \<and> id_start (hd n) \<and> (\<forall>c \<in> set (tl n). id_part c)
     \<and> (\<forall>c \<in> set n. c \<in> set listed_metacharacters \<longrightarrow> c = CHR ''$'')"
proof -
  from assms obtain n where g: "g = Gate (Some n)" and i: "is_ident n"
    unfolding findTodoWriteGate_iff by (auto simp: dispatch_at_def)
  from i obtain c cs where n: "n = c # cs" "id_start c" "\<forall>d \<in> set cs. id_part d"
    using is_ident_split by blast
  have "\<forall>c \<in> set n. c \<in> set listed_metacharacters \<longrightarrow> c = CHR ''$''"
    using i is_ident_chars id_part_meta by blast
  then show ?thesis
    using g n by simp
qed

lemma window_scenario: "take 8000 scenario = scenario"
  by (simp add: scenario_def)

lemma scenario_gate: "findTodoWriteGate scenario = Some (Gate (Some ''zz''))"
proof -
  have a: "str_search scenario TODO_WRITE_MARKER = Some 0"
    by code_simp
  have b: "map_option (\<lambda>m. capture m 1) (str_match scenario IS_ENABLED_FN_RE) = Some (Some ''zz'')"
    by code_simp
  show ?thesis
    using b by (auto simp: findTodoWriteGate_def a window_scenario)
qed

theorem extracted_name_is_identifier_witness:
  "findTodoWriteGate scenario = Some (Gate (Some ''zz''))
   \<and> (\<exists>n. fnName (Gate (Some ''zz'')) = Some n \<and> n \<noteq> [] \<and> id_start (hd n)
        \<and> (\<forall>c \<in> set (tl n). id_part c)
        \<and> (\<forall>c \<in> set n. c \<in> set listed_metacharacters \<longrightarrow> c = CHR ''$''))"
proof -
  have h: "findTodoWriteGate scenario = Some (Gate (Some ''zz''))"
    by (rule scenario_gate)
  show ?thesis
    using h extracted_name_is_identifier[OF h] by blast
qed

section \<open>Escaping and compiling the gate-definition pattern\<close>

lemma in_class_meta:
  "in_class False (map CChar (''.*+?^${}()|[]'' @ [BSL])) c = (c \<in> set listed_metacharacters)"
  by (auto simp: in_class_def listed_metacharacters_def)

lemma ms_escape_re:
  "ms (body escapeRegExp_RE) s [] =
     (case s of [] \<Rightarrow> [] | c # t \<Rightarrow> if c \<in> set listed_metacharacters then [(t, [])] else [])"
proof -
  have "body escapeRegExp_RE = Seq (Cls False (map CChar (''.*+?^${}()|[]'' @ [BSL]))) Eps"
    by (simp add: escapeRegExp_RE_def mk_seq_def)
  then show ?thesis
    by (simp only: ms_Seq_Eps ms.simps(4) in_class_meta)
qed

lemma subst_escape: "GetSubstitution [c] str i [] ([BSL] @ ''$&'') = [BSL, c]"
  by simp

lemma replace_all_escape:
  "replace_all escapeRegExp_RE ([BSL] @ ''$&'') str s i 0 = concat (map escape_char s)"
proof (induction s arbitrary: i)
  case Nil
  then show ?case by (simp add: ms_escape_re)
next
  case (Cons c t)
  have g: "ngroups escapeRegExp_RE = 0"
    by (simp add: escapeRegExp_RE_def)
  show ?case
  proof (cases "c \<in> set listed_metacharacters")
    case True
    then have "replace_all escapeRegExp_RE ([BSL] @ ''$&'') str (c # t) i 0
        = GetSubstitution [c] str i [] ([BSL] @ ''$&'')
          @ replace_all escapeRegExp_RE ([BSL] @ ''$&'') str t (Suc i) 0"
      by (simp add: ms_escape_re g Let_def del: GetSubstitution.simps)
    then show ?thesis
      using True Cons by (simp only: subst_escape escape_char_def) simp
  next
    case False
    then have "replace_all escapeRegExp_RE ([BSL] @ ''$&'') str (c # t) i 0
        = c # replace_all escapeRegExp_RE ([BSL] @ ''$&'') str t (Suc i) 0"
      by (simp add: ms_escape_re del: GetSubstitution.simps)
    then show ?thesis
      using False Cons by (simp add: escape_char_def)
  qed
qed

lemma escapeRegExp_alt: "escapeRegExp str = concat (map escape_char str)"
proof -
  have "global escapeRegExp_RE"
    by (simp add: escapeRegExp_RE_def)
  then show ?thesis
    using replace_all_escape[of str str 0]
    by (simp add: escapeRegExp_def str_replace_def)
qed

lemma run_append:
  "run st (a @ b) = (case run st a of None \<Rightarrow> None | Some st' \<Rightarrow> run st' b)"
  by (induction a arbitrary: st) (auto split: option.splits)

lemma meta_syntax: "c \<in> set listed_metacharacters \<longleftrightarrow> c \<in> set syntax_characters"
  by (auto simp: listed_metacharacters_def syntax_characters_def)

lemma step_escaped:
  "run (PState MNormal ((g, alts, cur) # fs) n) (escape_char c)
     = Some (PState MNormal ((g, alts, Chr c # cur) # fs) n)"
proof (cases "c \<in> set listed_metacharacters")
  case True
  then have s: "c \<in> set syntax_characters" using meta_syntax by simp
  then have "c \<noteq> CHR ''s''" "c \<noteq> CHR ''w''" "c \<noteq> CHR ''d''"
    by (auto simp: syntax_characters_def)
  then have "atom_escape c = Some (Chr c)"
    using s by (simp add: atom_escape_def)
  then show ?thesis
    using True by (simp add: escape_char_def push_term_def)
next
  case False
  then have s: "c \<notin> set syntax_characters" using meta_syntax by simp
  then have "c \<noteq> BSL" "c \<noteq> CHR ''[''" "c \<noteq> CHR ''(''" "c \<noteq> CHR '')''" "c \<noteq> CHR ''|''"
    "c \<noteq> CHR ''*''" "c \<noteq> CHR ''+''" "c \<noteq> CHR ''?''" "c \<noteq> CHR ''.''"
    by (auto simp: syntax_characters_def)
  then show ?thesis
    using False s by (simp add: escape_char_def push_term_def)
qed

lemma run_escaped:
  "run (PState MNormal ((g, alts, cur) # fs) n) (concat (map escape_char name))
     = Some (PState MNormal ((g, alts, rev (map Chr name) @ cur) # fs) n)"
proof (induction name arbitrary: cur)
  case Nil
  then show ?case by simp
next
  case (Cons c name)
  show ?case
    using Cons[of "Chr c # cur"]
    by (simp add: run_append step_escaped)
qed


lemma run_fn_prefix:
  "run (PState MNormal [(0, [], [])] 0) (''function'' @ [BSL] @ ''s+'')
     = Some (PState MNormal [(0, [], Plus (Cls False [CSpace]) # rev (lit ''function''))] 0)"
  by (simp add: push_term_def quantify_def atom_escape_def syntax_characters_def lit_def)

lemma run_fn_suffix:
  "run (PState MNormal [(0, [], cur)] 0)
       ([BSL] @ ''('' @ [BSL] @ '')'' @ [BSL] @ ''{return(!0|!1)'' @ [BSL] @ ''}'')
     = Some (PState MNormal
         [(0, [], Chr (CHR ''}'')
                  # Group 1 (Alt (mk_seq (lit ''!0'')) (mk_seq (lit ''!1'')))
                  # rev (lit ''(){return'') @ cur)] 1)"
  by (simp add: push_term_def atom_escape_def syntax_characters_def lit_def close_frame_def)

theorem new_RegExp_fnDef:
  "new_RegExp (fnDefRe_source name) False
     = Some \<lparr>body = fnDef_body name, ngroups = 1, global = False\<rparr>"
proof -
  have "run (PState MNormal [(0, [], [])] 0) (fnDefRe_source name)
      = Some (PState MNormal
         [(0, [], Chr (CHR ''}'')
                  # Group 1 (Alt (mk_seq (lit ''!0'')) (mk_seq (lit ''!1'')))
                  # rev (lit ''(){return'')
                  @ rev (map Chr name) @ Plus (Cls False [CSpace]) # rev (lit ''function''))] 1)"
  proof -
    define pre where "pre = ''function'' @ [BSL] @ ''s+''"
    define suf where "suf = [BSL] @ ''('' @ [BSL] @ '')'' @ [BSL] @ ''{return(!0|!1)'' @ [BSL] @ ''}''"
    have src: "fnDefRe_source name = pre @ concat (map escape_char name) @ suf"
      by (simp add: fnDefRe_source_def escapeRegExp_alt pre_def suf_def)
    have p: "run (PState MNormal [(0, [], [])] 0) pre
        = Some (PState MNormal [(0, [], Plus (Cls False [CSpace]) # rev (lit ''function''))] 0)"
      unfolding pre_def by (rule run_fn_prefix)
    have q: "run (PState MNormal [(0, [], cur)] 0) suf
        = Some (PState MNormal
           [(0, [], Chr (CHR ''}'')
                    # Group 1 (Alt (mk_seq (lit ''!0'')) (mk_seq (lit ''!1'')))
                    # rev (lit ''(){return'') @ cur)] 1)" for cur
      unfolding suf_def by (rule run_fn_suffix)
    show ?thesis
      by (simp only: src run_append p run_escaped q option.case)
  qed
  moreover have "close_frame []
        (Chr (CHR ''}'') # Group 1 (Alt (mk_seq (lit ''!0'')) (mk_seq (lit ''!1'')))
          # rev (lit ''(){return'')
          @ rev (map Chr name) @ Plus (Cls False [CSpace]) # rev (lit ''function''))
      = fnDef_body name"
    by (simp add: close_frame_def fnDef_body_def lit_def)
  ultimately show ?thesis
    by (simp add: new_RegExp_def)
qed

lemma fnDefRe_Some: "fnDefRe (Some name) = Inr \<lparr>body = fnDef_body name, ngroups = 1, global = False\<rparr>"
  by (simp add: fnDefRe_def new_RegExp_fnDef)

section \<open>What the gate-definition pattern matches\<close>

lemma ms_Star_Cls_step:
  "ms (Seq (Star (Cls ng cs)) r) (x # xs) cp =
     (if in_class ng cs x then ms (Seq (Star (Cls ng cs)) r) xs cp @ ms r (x # xs) cp
      else ms r (x # xs) cp)"
  by (simp add: clear_caps_def ms.simps)

lemma ms_Star_Cls_Nil: "ms (Seq (Star (Cls ng cs)) r) [] cp = ms r [] cp"
  by (simp add: clear_caps_def ms.simps)

lemma ms_Star_Cls_seq_set:
  "x \<in> set (ms (Seq (Star (Cls ng cs)) r) s cp) \<longleftrightarrow>
     (\<exists>ws rest. s = ws @ rest \<and> (\<forall>c \<in> set ws. in_class ng cs c) \<and> x \<in> set (ms r rest cp))"
proof (induction s)
  case Nil
  then show ?case by (simp add: ms_Star_Cls_Nil)
next
  case (Cons a s)
  show ?case
  proof (cases "in_class ng cs a")
    case True
    have "x \<in> set (ms (Seq (Star (Cls ng cs)) r) (a # s) cp) \<longleftrightarrow>
        (\<exists>ws rest. s = ws @ rest \<and> (\<forall>c \<in> set ws. in_class ng cs c) \<and> x \<in> set (ms r rest cp))
        \<or> x \<in> set (ms r (a # s) cp)"
      using True Cons by (simp add: ms_Star_Cls_step)
    also have "\<dots> \<longleftrightarrow>
        (\<exists>ws rest. a # s = ws @ rest \<and> (\<forall>c \<in> set ws. in_class ng cs c) \<and> x \<in> set (ms r rest cp))"
    proof
      assume "(\<exists>ws rest. s = ws @ rest \<and> (\<forall>c \<in> set ws. in_class ng cs c) \<and> x \<in> set (ms r rest cp))
        \<or> x \<in> set (ms r (a # s) cp)"
      then show "\<exists>ws rest. a # s = ws @ rest \<and> (\<forall>c \<in> set ws. in_class ng cs c) \<and> x \<in> set (ms r rest cp)"
      proof
        assume "\<exists>ws rest. s = ws @ rest \<and> (\<forall>c \<in> set ws. in_class ng cs c) \<and> x \<in> set (ms r rest cp)"
        then obtain ws rest where "s = ws @ rest" "\<forall>c \<in> set ws. in_class ng cs c" "x \<in> set (ms r rest cp)"
          by blast
        then have "a # s = (a # ws) @ rest \<and> (\<forall>c \<in> set (a # ws). in_class ng cs c) \<and> x \<in> set (ms r rest cp)"
          using True by simp
        then show ?thesis by blast
      next
        assume "x \<in> set (ms r (a # s) cp)"
        then have "a # s = [] @ (a # s) \<and> (\<forall>c \<in> set []. in_class ng cs c) \<and> x \<in> set (ms r (a # s) cp)"
          by simp
        then show ?thesis by blast
      qed
    next
      assume "\<exists>ws rest. a # s = ws @ rest \<and> (\<forall>c \<in> set ws. in_class ng cs c) \<and> x \<in> set (ms r rest cp)"
      then obtain ws rest where w: "a # s = ws @ rest" "\<forall>c \<in> set ws. in_class ng cs c" "x \<in> set (ms r rest cp)"
        by blast
      show "(\<exists>ws rest. s = ws @ rest \<and> (\<forall>c \<in> set ws. in_class ng cs c) \<and> x \<in> set (ms r rest cp))
        \<or> x \<in> set (ms r (a # s) cp)"
      proof (cases ws)
        case Nil
        then show ?thesis using w by simp
      next
        case (Cons b ws')
        then have "s = ws' @ rest \<and> (\<forall>c \<in> set ws'. in_class ng cs c)"
          using w by simp
        then show ?thesis using w(3) by blast
      qed
    qed
    finally show ?thesis .
  next
    case False
    have "(\<exists>ws rest. a # s = ws @ rest \<and> (\<forall>c \<in> set ws. in_class ng cs c) \<and> x \<in> set (ms r rest cp))
        \<longleftrightarrow> x \<in> set (ms r (a # s) cp)"
    proof
      assume "\<exists>ws rest. a # s = ws @ rest \<and> (\<forall>c \<in> set ws. in_class ng cs c) \<and> x \<in> set (ms r rest cp)"
      then obtain ws rest where w: "a # s = ws @ rest" "\<forall>c \<in> set ws. in_class ng cs c" "x \<in> set (ms r rest cp)"
        by blast
      have "ws = []"
      proof (cases ws)
        case Nil
        then show ?thesis .
      next
        case (Cons b ws')
        then have "b = a" using w(1) by simp
        then show ?thesis using w(2) Cons False by simp
      qed
      then show "x \<in> set (ms r (a # s) cp)" using w by simp
    next
      assume "x \<in> set (ms r (a # s) cp)"
      then have "a # s = [] @ (a # s) \<and> (\<forall>c \<in> set []. in_class ng cs c) \<and> x \<in> set (ms r (a # s) cp)"
        by simp
      then show "\<exists>ws rest. a # s = ws @ rest \<and> (\<forall>c \<in> set ws. in_class ng cs c) \<and> x \<in> set (ms r rest cp)"
        by blast
    qed
    then show ?thesis
      using False by (simp add: ms_Star_Cls_step)
  qed
qed

lemma ms_Plus_Cls_unfold:
  "ms (Seq (Plus (Cls ng cs)) r) s cp =
     (case s of [] \<Rightarrow> []
      | x # xs \<Rightarrow> if in_class ng cs x then ms (Seq (Star (Cls ng cs)) r) xs cp else [])"
  by (cases s) (simp_all add: clear_caps_def ms.simps)

lemma ms_Plus_Cls_seq_set:
  "x \<in> set (ms (Seq (Plus (Cls ng cs)) r) s cp) \<longleftrightarrow>
     (\<exists>ws rest. s = ws @ rest \<and> ws \<noteq> [] \<and> (\<forall>c \<in> set ws. in_class ng cs c)
        \<and> x \<in> set (ms r rest cp))"
proof
  assume "x \<in> set (ms (Seq (Plus (Cls ng cs)) r) s cp)"
  then obtain a xs where s: "s = a # xs" and a: "in_class ng cs a"
    and m: "x \<in> set (ms (Seq (Star (Cls ng cs)) r) xs cp)"
    unfolding ms_Plus_Cls_unfold by (auto split: list.splits if_splits)
  from m obtain ws rest where "xs = ws @ rest" "\<forall>c \<in> set ws. in_class ng cs c" "x \<in> set (ms r rest cp)"
    unfolding ms_Star_Cls_seq_set by blast
  then have "s = (a # ws) @ rest \<and> a # ws \<noteq> [] \<and> (\<forall>c \<in> set (a # ws). in_class ng cs c)
      \<and> x \<in> set (ms r rest cp)"
    using s a by simp
  then show "\<exists>ws rest. s = ws @ rest \<and> ws \<noteq> [] \<and> (\<forall>c \<in> set ws. in_class ng cs c)
        \<and> x \<in> set (ms r rest cp)"
    by blast
next
  assume "\<exists>ws rest. s = ws @ rest \<and> ws \<noteq> [] \<and> (\<forall>c \<in> set ws. in_class ng cs c)
        \<and> x \<in> set (ms r rest cp)"
  then obtain ws rest where w: "s = ws @ rest" "ws \<noteq> []" "\<forall>c \<in> set ws. in_class ng cs c"
    "x \<in> set (ms r rest cp)"
    by blast
  then obtain a ws' where ws: "ws = a # ws'" by (cases ws) auto
  have "x \<in> set (ms (Seq (Star (Cls ng cs)) r) (ws' @ rest) cp)"
    unfolding ms_Star_Cls_seq_set using w ws by auto
  then show "x \<in> set (ms (Seq (Plus (Cls ng cs)) r) s cp)"
    unfolding ms_Plus_Cls_unfold using w ws by simp
qed

lemma ms_literal_pair:
  "ms (Seq (Group 1 (Alt (mk_seq (lit ''!0'')) (mk_seq (lit ''!1'')))) (mk_seq (lit ''}''))) s cp =
     (if take 3 s = ''!0}'' then [(drop 3 s, (1, ''!0'') # cp)] else [])
     @ (if take 3 s = ''!1}'' then [(drop 3 s, (1, ''!1'') # cp)] else [])"
proof -
  have a: "ms (mk_seq (lit ''!0'')) s cp = (if take 2 s = ''!0'' then [(drop 2 s, cp)] else [])"
    by (rule ms_lit_n) simp
  have b: "ms (mk_seq (lit ''!1'')) s cp = (if take 2 s = ''!1'' then [(drop 2 s, cp)] else [])"
    by (rule ms_lit_n) simp
  have c: "ms (mk_seq (lit ''}'')) u cp' = (if take 1 u = ''}'' then [(drop 1 u, cp')] else [])" for u cp'
    by (rule ms_lit_n) simp
  have t: "take 3 s = take 2 s @ take 1 (drop 2 s)"
    by (metis One_nat_def Suc_1 add_Suc_right numeral_3_eq_3 take_add add.right_neutral)
  have d: "take 3 s = ''!0}'' \<longleftrightarrow> take 2 s = ''!0'' \<and> take 1 (drop 2 s) = ''}''"
  proof
    assume "take 3 s = ''!0}''"
    then have "take 2 (take 3 s) = ''!0''" and "drop 2 (take 3 s) = ''}''" by simp_all
    then show "take 2 s = ''!0'' \<and> take 1 (drop 2 s) = ''}''"
      by (simp add: drop_take min_def)
  next
    assume "take 2 s = ''!0'' \<and> take 1 (drop 2 s) = ''}''"
    then show "take 3 s = ''!0}''" using t by simp
  qed
  have e: "take 3 s = ''!1}'' \<longleftrightarrow> take 2 s = ''!1'' \<and> take 1 (drop 2 s) = ''}''"
  proof
    assume "take 3 s = ''!1}''"
    then have "take 2 (take 3 s) = ''!1''" and "drop 2 (take 3 s) = ''}''" by simp_all
    then show "take 2 s = ''!1'' \<and> take 1 (drop 2 s) = ''}''"
      by (simp add: drop_take min_def)
  next
    assume "take 2 s = ''!1'' \<and> take 1 (drop 2 s) = ''}''"
    then show "take 3 s = ''!1}''" using t by simp
  qed
  show ?thesis
    unfolding ms.simps(5) ms.simps(10) ms.simps(6) a b d e
    by (simp add: c take_as_diff numeral_3_eq_3)
qed


lemma take_eq_iff: "take (length w) s = w \<longleftrightarrow> (\<exists>r. s = w @ r)"
proof
  assume "take (length w) s = w"
  then have "s = w @ drop (length w) s" by (metis append_take_drop_id)
  then show "\<exists>r. s = w @ r" ..
next
  assume "\<exists>r. s = w @ r"
  then show "take (length w) s = w" by auto
qed

lemma take_n_eq_iff: "length w = n \<Longrightarrow> take n s = w \<longleftrightarrow> (\<exists>r. s = w @ r)"
  using take_eq_iff[of w s] by simp

lemma in_class_space_fun: "in_class False [CSpace] = is_space"
  by (rule ext) simp

lemma ms_lit_set:
  "x \<in> set (ms (mk_seq (lit w @ rs)) s cp) \<longleftrightarrow> (\<exists>r. s = w @ r \<and> x \<in> set (ms (mk_seq rs) r cp))"
proof (cases "take (length w) s = w")
  case True
  then have s: "s = w @ drop (length w) s" by (metis append_take_drop_id)
  have "x \<in> set (ms (mk_seq (lit w @ rs)) s cp) \<longleftrightarrow> x \<in> set (ms (mk_seq rs) (drop (length w) s) cp)"
    using True by (simp add: ms_lit)
  also have "\<dots> \<longleftrightarrow> (\<exists>r. s = w @ r \<and> x \<in> set (ms (mk_seq rs) r cp))"
    using s by (metis append_eq_conv_conj)
  finally show ?thesis .
next
  case False
  then have "\<not> (\<exists>r. s = w @ r)" using take_eq_iff by blast
  then show ?thesis using False by (simp add: ms_lit)
qed

lemma ms_literal_pair_set:
  "x \<in> set (ms (mk_seq (Group 1 (Alt (mk_seq (lit ''!0'')) (mk_seq (lit ''!1''))) # lit ''}'')) s cp)
   \<longleftrightarrow> (\<exists>l r. l \<in> {''!0'', ''!1''} \<and> s = l @ ''}'' @ r \<and> x = (r, (1, l) # cp))"
proof -
  have a: "take 3 s = ''!0}'' \<longleftrightarrow> (\<exists>r. s = ''!0}'' @ r)"
    by (rule take_n_eq_iff) simp
  have b: "take 3 s = ''!1}'' \<longleftrightarrow> (\<exists>r. s = ''!1}'' @ r)"
    by (rule take_n_eq_iff) simp
  have "x \<in> set (ms (mk_seq (Group 1 (Alt (mk_seq (lit ''!0'')) (mk_seq (lit ''!1''))) # lit ''}'')) s cp)
     \<longleftrightarrow> (take 3 s = ''!0}'' \<and> x = (drop 3 s, (1, ''!0'') # cp))
       \<or> (take 3 s = ''!1}'' \<and> x = (drop 3 s, (1, ''!1'') # cp))"
    unfolding mk_seq_Cons ms_literal_pair by auto
  also have "\<dots> \<longleftrightarrow> (\<exists>l r. l \<in> {''!0'', ''!1''} \<and> s = l @ ''}'' @ r \<and> x = (r, (1, l) # cp))"
    unfolding a b by auto
  finally show ?thesis .
qed

lemma body_fnDef:
  "fnDef_body name =
     mk_seq (lit ''function'' @ (Plus (Cls False [CSpace])
       # (lit name @ (lit ''(){return''
           @ (Group 1 (Alt (mk_seq (lit ''!0'')) (mk_seq (lit ''!1''))) # lit ''}'')))))"
  by (simp add: fnDef_body_def)

theorem fnDef_results:
  "x \<in> set (ms (fnDef_body name) t cp) \<longleftrightarrow>
     (\<exists>ws l rest. is_blank ws \<and> l \<in> {''!0'', ''!1''} \<and> t = gate_def ws name l @ rest
        \<and> x = (rest, (1, l) # cp))"
proof -
  have "x \<in> set (ms (fnDef_body name) t cp) \<longleftrightarrow>
      (\<exists>r1. t = ''function'' @ r1 \<and>
        (\<exists>ws r2. r1 = ws @ r2 \<and> ws \<noteq> [] \<and> (\<forall>c \<in> set ws. is_space c) \<and>
          (\<exists>r3. r2 = name @ r3 \<and>
            (\<exists>r4. r3 = ''(){return'' @ r4 \<and>
              (\<exists>l r. l \<in> {''!0'', ''!1''} \<and> r4 = l @ ''}'' @ r \<and> x = (r, (1, l) # cp))))))"
    unfolding body_fnDef ms_lit_set mk_seq_Cons ms_Plus_Cls_seq_set ms_literal_pair_set[unfolded mk_seq_Cons]
    by (simp only: in_class_space_fun)
  also have "\<dots> \<longleftrightarrow> (\<exists>ws l rest. is_blank ws \<and> l \<in> {''!0'', ''!1''} \<and> t = gate_def ws name l @ rest
        \<and> x = (rest, (1, l) # cp))"
    unfolding is_blank_def gate_def_def by (simp only: append_assoc) blast
  finally show ?thesis .
qed

lemma fnDef_nonempty_iff:
  "ms (fnDef_body name) t cp \<noteq> [] \<longleftrightarrow> def_at name ''!0'' t \<or> def_at name ''!1'' t"
proof -
  have "ms (fnDef_body name) t cp \<noteq> [] \<longleftrightarrow> (\<exists>x. x \<in> set (ms (fnDef_body name) t cp))"
    by (cases "ms (fnDef_body name) t cp") auto
  also have "\<dots> \<longleftrightarrow> (\<exists>ws l rest. is_blank ws \<and> l \<in> {''!0'', ''!1''} \<and> t = gate_def ws name l @ rest)"
    unfolding fnDef_results by blast
  also have "\<dots> \<longleftrightarrow> def_at name ''!0'' t \<or> def_at name ''!1'' t"
    unfolding def_at_def by blast
  finally show ?thesis .
qed

section \<open>Finding the gate definition\<close>

lemma fnDefRe_FD: "fnDefRe (Some name) = Inr (FD name)"
  by (simp add: fnDefRe_Some FD_def)

lemma body_FD: "body (FD name) = fnDef_body name"
  by (simp add: FD_def)

lemma ngroups_FD: "ngroups (FD name) = 1"
  by (simp add: FD_def)

lemma global_FD: "\<not> global (FD name)"
  by (simp add: FD_def)

lemma first_at_FD:
  "first_at (\<lambda>t. ms (body (FD name)) t [] \<noteq> []) s k
     = first_at (\<lambda>t. def_at name ''!0'' t \<or> def_at name ''!1'' t) s k"
  by (rule first_at_cong) (simp add: body_FD fnDef_nonempty_iff)

lemma str_match_FD_D:
  assumes "str_match s (FD name) = Some m"
  shows "\<exists>ws l rest. is_blank ws \<and> l \<in> {''!0'', ''!1''}
     \<and> first_at (\<lambda>t. def_at name ''!0'' t \<or> def_at name ''!1'' t) s (index m)
     \<and> drop (index m) s = gate_def ws name l @ rest
     \<and> matched m = gate_def ws name l \<and> captures m = [Some l]"
proof -
  from assms obtain k s' cp rs where f: "first_at (\<lambda>t. ms (body (FD name)) t [] \<noteq> []) s k"
    and h: "ms (body (FD name)) (drop k s) [] = (s', cp) # rs"
    and m: "m = \<lparr>index = k, matched = take (length (drop k s) - length s') (drop k s),
                captures = map (map_of cp) [1 ..< Suc (ngroups (FD name))]\<rparr>"
    unfolding str_match_def scan_iff_first by blast
  have "(s', cp) \<in> set (ms (fnDef_body name) (drop k s) [])"
    using h by (simp add: body_FD)
  then obtain ws l where w: "is_blank ws" "l \<in> {''!0'', ''!1''}"
    and d: "drop k s = gate_def ws name l @ s'" and cp: "cp = [(1, l)]"
    unfolding fnDef_results by blast
  have "take (length (drop k s) - length s') (drop k s) = gate_def ws name l"
    by (simp only: d) simp
  then have "matched m = gate_def ws name l \<and> captures m = [Some l] \<and> index m = k"
    using m cp by (simp add: ngroups_FD)
  then show ?thesis
    using w d f first_at_FD by blast
qed

lemma str_match_FD_None:
  "str_match s (FD name) = None \<longleftrightarrow>
     (\<forall>j \<le> length s. \<not> (def_at name ''!0'' (drop j s) \<or> def_at name ''!1'' (drop j s)))"
proof -
  have "ms (fnDef_body name) t [] = [] \<longleftrightarrow> \<not> (def_at name ''!0'' t \<or> def_at name ''!1'' t)" for t
    using fnDef_nonempty_iff[of name t "[]"] by auto
  then show ?thesis
    unfolding str_match_def scan_None_iff body_FD by simp
qed

lemma matches_at_FD:
  "matches_at (FD name) s i \<longleftrightarrow>
     i \<le> length s \<and> (def_at name ''!0'' (drop i s) \<or> def_at name ''!1'' (drop i s))"
  by (simp add: matches_at_def body_FD fnDef_nonempty_iff)

lemma def_at_explicit:
  "def_at name ''!0'' t \<or> def_at name ''!1'' t \<longleftrightarrow>
     (\<exists>ws l rest. is_blank ws \<and> l \<in> {''!0'', ''!1''}
        \<and> t = ''function'' @ ws @ name @ ''(){return'' @ l @ ''}'' @ rest)"
  unfolding def_at_def gate_def_def
  by (simp only: append_assoc) blast

lemma findGateDefinition_FD:
  "findGateDefinition s (Some name) = Inr (str_match s (FD name))"
  by (simp add: findGateDefinition_def fnDefRe_FD)

lemma is_blank_single_space: "is_blank '' ''"
  by (simp add: is_blank_def is_space_def cu_def)

lemma two_functions_search:
  "findGateDefinition ''function sUxy(){return!0};function sU.*(){return!1}'' (Some ''sU.*'')
     = Inr (Some \<lparr>index = 26, matched = ''function sU.*(){return!1}'', captures = [Some ''!1'']\<rparr>)"
proof -
  have "str_match ''function sUxy(){return!0};function sU.*(){return!1}'' (FD ''sU.*'')
     = Some \<lparr>index = 26, matched = ''function sU.*(){return!1}'', captures = [Some ''!1'']\<rparr>"
    by code_simp
  then show ?thesis
    by (simp only: findGateDefinition_FD)
qed

text \<open>
  C3. The gate-definition pattern is built from the escaped name: \<open>escapeRegExp\<close> puts a
  backslash before each of the fourteen metacharacters and leaves every other character
  as it is. For every name, also one with metacharacters in it, the pattern compiles, and
  it matches at a position of the content exactly when the content reads there
  \<open>function\<close>, one or more whitespace characters, the name itself, and
  \<open>(){return!0}\<close> or \<open>(){return!1}\<close>. \<open>findGateDefinition\<close> never raises. It returns
  no match exactly when the content has no such definition of that very name at any
  position. Otherwise it returns the match at the first position where the content has
  one: the matched text is that definition, the capture is its literal, and no earlier
  position has a definition of the name. So a definition of another function is never
  what the search finds.
\<close>

theorem gate_definition_search_literal:
  "escapeRegExp name = concat (map escape_char name)
   \<and> (\<exists>R. fnDefRe (Some name) = Inr R
        \<and> (\<forall>t i. matches_at R t i \<longleftrightarrow>
              i \<le> length t \<and> (\<exists>ws l rest. is_blank ws \<and> l \<in> {''!0'', ''!1''}
                 \<and> drop i t = ''function'' @ ws @ name @ ''(){return'' @ l @ ''}'' @ rest)))
   \<and> (\<exists>r. findGateDefinition s (Some name) = Inr r
        \<and> (case r of
              None \<Rightarrow>
                \<forall>j \<le> length s. \<not> (\<exists>ws l rest. is_blank ws \<and> l \<in> {''!0'', ''!1''}
                   \<and> drop j s = ''function'' @ ws @ name @ ''(){return'' @ l @ ''}'' @ rest)
            | Some m \<Rightarrow>
                \<exists>ws l rest. is_blank ws \<and> l \<in> {''!0'', ''!1''}
                  \<and> index m \<le> length s
                  \<and> drop (index m) s = ''function'' @ ws @ name @ ''(){return'' @ l @ ''}'' @ rest
                  \<and> matched m = ''function'' @ ws @ name @ ''(){return'' @ l @ ''}''
                  \<and> captures m = [Some l]
                  \<and> (\<forall>j < index m. \<not> (\<exists>ws l rest. is_blank ws \<and> l \<in> {''!0'', ''!1''}
                        \<and> drop j s = ''function'' @ ws @ name @ ''(){return'' @ l @ ''}'' @ rest))))"
proof -
  have a: "matches_at (FD name) t i \<longleftrightarrow>
              i \<le> length t \<and> (\<exists>ws l rest. is_blank ws \<and> l \<in> {''!0'', ''!1''}
                 \<and> drop i t = ''function'' @ ws @ name @ ''(){return'' @ l @ ''}'' @ rest)" for t i
    unfolding matches_at_FD def_at_explicit ..
  have b: "case str_match s (FD name) of
              None \<Rightarrow>
                \<forall>j \<le> length s. \<not> (\<exists>ws l rest. is_blank ws \<and> l \<in> {''!0'', ''!1''}
                   \<and> drop j s = ''function'' @ ws @ name @ ''(){return'' @ l @ ''}'' @ rest)
            | Some m \<Rightarrow>
                \<exists>ws l rest. is_blank ws \<and> l \<in> {''!0'', ''!1''}
                  \<and> index m \<le> length s
                  \<and> drop (index m) s = ''function'' @ ws @ name @ ''(){return'' @ l @ ''}'' @ rest
                  \<and> matched m = ''function'' @ ws @ name @ ''(){return'' @ l @ ''}''
                  \<and> captures m = [Some l]
                  \<and> (\<forall>j < index m. \<not> (\<exists>ws l rest. is_blank ws \<and> l \<in> {''!0'', ''!1''}
                        \<and> drop j s = ''function'' @ ws @ name @ ''(){return'' @ l @ ''}'' @ rest))"
  proof (cases "str_match s (FD name)")
    case None
    then have "\<forall>j \<le> length s. \<not> (def_at name ''!0'' (drop j s) \<or> def_at name ''!1'' (drop j s))"
      unfolding str_match_FD_None .
    then have "\<forall>j \<le> length s. \<not> (\<exists>ws l rest. is_blank ws \<and> l \<in> {''!0'', ''!1''}
                   \<and> drop j s = ''function'' @ ws @ name @ ''(){return'' @ l @ ''}'' @ rest)"
      unfolding def_at_explicit .
    then show ?thesis
      using None by simp
  next
    case (Some m)
    from str_match_FD_D[OF this] obtain ws l rest where w: "is_blank ws" "l \<in> {''!0'', ''!1''}"
      and f: "first_at (\<lambda>t. def_at name ''!0'' t \<or> def_at name ''!1'' t) s (index m)"
      and d: "drop (index m) s = gate_def ws name l @ rest"
      and m: "matched m = gate_def ws name l" "captures m = [Some l]"
      by blast
    have le: "index m \<le> length s"
      using f unfolding first_at_def by (rule conjunct1)
    have "\<forall>j < index m. \<not> (def_at name ''!0'' (drop j s) \<or> def_at name ''!1'' (drop j s))"
      using f unfolding first_at_def by simp
    then have n: "\<forall>j < index m. \<not> (\<exists>ws l rest. is_blank ws \<and> l \<in> {''!0'', ''!1''}
                        \<and> drop j s = ''function'' @ ws @ name @ ''(){return'' @ l @ ''}'' @ rest)"
      unfolding def_at_explicit .
    have d': "drop (index m) s = ''function'' @ ws @ name @ ''(){return'' @ l @ ''}'' @ rest"
      using d by (simp add: gate_def_def)
    have m': "matched m = ''function'' @ ws @ name @ ''(){return'' @ l @ ''}''"
      using m(1) by (simp add: gate_def_def)
    have "\<exists>ws l rest. is_blank ws \<and> l \<in> {''!0'', ''!1''}
                  \<and> index m \<le> length s
                  \<and> drop (index m) s = ''function'' @ ws @ name @ ''(){return'' @ l @ ''}'' @ rest
                  \<and> matched m = ''function'' @ ws @ name @ ''(){return'' @ l @ ''}''
                  \<and> captures m = [Some l]
                  \<and> (\<forall>j < index m. \<not> (\<exists>ws l rest. is_blank ws \<and> l \<in> {''!0'', ''!1''}
                        \<and> drop j s = ''function'' @ ws @ name @ ''(){return'' @ l @ ''}'' @ rest))"
      using w le d' m' m(2) n by blast
    then show ?thesis
      using Some by simp
  qed
  have c: "\<exists>r. findGateDefinition s (Some name) = Inr r
        \<and> (case r of
              None \<Rightarrow>
                \<forall>j \<le> length s. \<not> (\<exists>ws l rest. is_blank ws \<and> l \<in> {''!0'', ''!1''}
                   \<and> drop j s = ''function'' @ ws @ name @ ''(){return'' @ l @ ''}'' @ rest)
            | Some m \<Rightarrow>
                \<exists>ws l rest. is_blank ws \<and> l \<in> {''!0'', ''!1''}
                  \<and> index m \<le> length s
                  \<and> drop (index m) s = ''function'' @ ws @ name @ ''(){return'' @ l @ ''}'' @ rest
                  \<and> matched m = ''function'' @ ws @ name @ ''(){return'' @ l @ ''}''
                  \<and> captures m = [Some l]
                  \<and> (\<forall>j < index m. \<not> (\<exists>ws l rest. is_blank ws \<and> l \<in> {''!0'', ''!1''}
                        \<and> drop j s = ''function'' @ ws @ name @ ''(){return'' @ l @ ''}'' @ rest)))"
    using findGateDefinition_FD[of s name] b by (intro exI[of _ "str_match s (FD name)"] conjI)
  have d: "\<exists>R. fnDefRe (Some name) = Inr R
        \<and> (\<forall>t i. matches_at R t i \<longleftrightarrow>
              i \<le> length t \<and> (\<exists>ws l rest. is_blank ws \<and> l \<in> {''!0'', ''!1''}
                 \<and> drop i t = ''function'' @ ws @ name @ ''(){return'' @ l @ ''}'' @ rest))"
    using fnDefRe_FD[of name] a by blast
  show ?thesis
    using escapeRegExp_alt[of name] d c by (intro conjI)
qed

theorem gate_definition_search_literal_witness:
  "escapeRegExp ''sU.*'' = ''sU'' @ [BSL] @ ''.'' @ [BSL] @ ''*''
   \<and> findGateDefinition ''function sUxy(){return!0};function sU.*(){return!1}'' (Some ''sU.*'')
       = Inr (Some \<lparr>index = 26, matched = ''function sU.*(){return!1}'', captures = [Some ''!1'']\<rparr>)
   \<and> \<not> (\<exists>ws l rest. is_blank ws \<and> l \<in> {''!0'', ''!1''}
          \<and> drop 0 ''function sUxy(){return!0};function sU.*(){return!1}''
              = ''function'' @ ws @ ''sU.*'' @ ''(){return'' @ l @ ''}'' @ rest)"
proof -
  define s0 where "s0 = ''function sUxy(){return!0};function sU.*(){return!1}''"
  define m0 where "m0 = \<lparr>index = 26, matched = ''function sU.*(){return!1}'', captures = [Some ''!1'']\<rparr>"
  have g: "findGateDefinition s0 (Some ''sU.*'') = Inr (Some m0)"
    unfolding s0_def m0_def by (rule two_functions_search)
  from gate_definition_search_literal[of "''sU.*''" s0]
  obtain r where e: "escapeRegExp ''sU.*'' = concat (map escape_char ''sU.*'')"
    and r: "findGateDefinition s0 (Some ''sU.*'') = Inr r"
    and c: "case r of
              None \<Rightarrow>
                \<forall>j \<le> length s0. \<not> (\<exists>ws l rest. is_blank ws \<and> l \<in> {''!0'', ''!1''}
                   \<and> drop j s0 = ''function'' @ ws @ ''sU.*'' @ ''(){return'' @ l @ ''}'' @ rest)
            | Some m \<Rightarrow>
                \<exists>ws l rest. is_blank ws \<and> l \<in> {''!0'', ''!1''}
                  \<and> index m \<le> length s0
                  \<and> drop (index m) s0 = ''function'' @ ws @ ''sU.*'' @ ''(){return'' @ l @ ''}'' @ rest
                  \<and> matched m = ''function'' @ ws @ ''sU.*'' @ ''(){return'' @ l @ ''}''
                  \<and> captures m = [Some l]
                  \<and> (\<forall>j < index m. \<not> (\<exists>ws l rest. is_blank ws \<and> l \<in> {''!0'', ''!1''}
                        \<and> drop j s0 = ''function'' @ ws @ ''sU.*'' @ ''(){return'' @ l @ ''}'' @ rest))"
    by blast
  have rm: "r = Some m0"
    using g r by simp
  have "\<exists>ws l rest. is_blank ws \<and> l \<in> {''!0'', ''!1''}
                  \<and> index m0 \<le> length s0
                  \<and> drop (index m0) s0 = ''function'' @ ws @ ''sU.*'' @ ''(){return'' @ l @ ''}'' @ rest
                  \<and> matched m0 = ''function'' @ ws @ ''sU.*'' @ ''(){return'' @ l @ ''}''
                  \<and> captures m0 = [Some l]
                  \<and> (\<forall>j < index m0. \<not> (\<exists>ws l rest. is_blank ws \<and> l \<in> {''!0'', ''!1''}
                        \<and> drop j s0 = ''function'' @ ws @ ''sU.*'' @ ''(){return'' @ l @ ''}'' @ rest))"
    using c unfolding rm option.case .
  then have "\<forall>j < index m0. \<not> (\<exists>ws l rest. is_blank ws \<and> l \<in> {''!0'', ''!1''}
                        \<and> drop j s0 = ''function'' @ ws @ ''sU.*'' @ ''(){return'' @ l @ ''}'' @ rest)"
    by (elim exE conjE)
  moreover have "0 < index m0"
    by (simp add: m0_def)
  ultimately have n: "\<not> (\<exists>ws l rest. is_blank ws \<and> l \<in> {''!0'', ''!1''}
                        \<and> drop 0 s0 = ''function'' @ ws @ ''sU.*'' @ ''(){return'' @ l @ ''}'' @ rest)"
    by blast
  have "concat (map escape_char ''sU.*'') = ''sU'' @ [BSL] @ ''.'' @ [BSL] @ ''*''"
    by (simp add: escape_char_def listed_metacharacters_def)
  then have a: "escapeRegExp ''sU.*'' = ''sU'' @ [BSL] @ ''.'' @ [BSL] @ ''*''"
    using e by simp
  show ?thesis
    using a g n unfolding s0_def m0_def by (intro conjI)
qed

section \<open>Classifying the state\<close>

lemma takeWhile_blank_ident:
  assumes "is_blank ws" and "is_ident n"
  shows "takeWhile is_space (ws @ n @ r) = ws"
proof -
  from assms(2) obtain c cs where n: "n = c # cs" and c: "\<not> is_space c"
    using is_ident_not_space by blast
  have "\<forall>x \<in> set ws. is_space x"
    using assms(1) by (simp add: is_blank_def)
  then show ?thesis
    using n c by (simp add: takeWhile_append2)
qed

lemma gate_def_unique:
  assumes "is_ident n" "is_blank ws" "is_blank ws'"
    and "l \<in> {''!0'', ''!1''}" "l' \<in> {''!0'', ''!1''}"
    and "gate_def ws n l @ r = gate_def ws' n l' @ r'"
  shows "ws = ws' \<and> l = l' \<and> r = r'"
proof -
  have e: "ws @ n @ (''(){return'' @ l @ ''}'' @ r) = ws' @ n @ (''(){return'' @ l' @ ''}'' @ r')"
    using assms(6) by (simp add: gate_def_def)
  have "takeWhile is_space (ws @ n @ (''(){return'' @ l @ ''}'' @ r)) = ws"
    using assms(1,2) by (rule takeWhile_blank_ident[rotated])
  moreover have "takeWhile is_space (ws' @ n @ (''(){return'' @ l' @ ''}'' @ r')) = ws'"
    using assms(1,3) by (rule takeWhile_blank_ident[rotated])
  ultimately have w: "ws = ws'"
    using e by simp
  then have "l @ ''}'' @ r = l' @ ''}'' @ r'"
    using e by simp
  moreover have "length l = length l'"
    using assms(4,5) by auto
  ultimately have "l = l' \<and> r = r'"
    by simp
  then show ?thesis using w by simp
qed

lemma def_at_unique:
  assumes "is_ident n" "def_at n l t" "def_at n l' t"
    and "l \<in> {''!0'', ''!1''}" "l' \<in> {''!0'', ''!1''}"
  shows "l = l'"
proof -
  from assms(2) obtain ws r where a: "t = gate_def ws n l @ r" "is_blank ws"
    by (auto simp: def_at_def)
  from assms(3) obtain ws' r' where b: "t = gate_def ws' n l' @ r'" "is_blank ws'"
    by (auto simp: def_at_def)
  have "gate_def ws n l @ r = gate_def ws' n l' @ r'"
    using a b by simp
  from gate_def_unique[OF assms(1) a(2) b(2) assms(4,5) this] show ?thesis by simp
qed

lemma str_match_FD_ident:
  assumes "is_ident n"
    and "first_at (\<lambda>t. def_at n ''!0'' t \<or> def_at n ''!1'' t) s p"
    and "drop p s = gate_def ws n l @ r" and "is_blank ws" and "l \<in> {''!0'', ''!1''}"
  shows "str_match s (FD n) = Some \<lparr>index = p, matched = gate_def ws n l, captures = [Some l]\<rparr>"
proof -
  have "def_at n ''!0'' (drop p s) \<or> def_at n ''!1'' (drop p s)"
    using assms(2) by (simp add: first_at_def)
  then have "ms (fnDef_body n) (drop p s) [] \<noteq> []"
    by (simp add: fnDef_nonempty_iff)
  then obtain s' cp rs where h: "ms (fnDef_body n) (drop p s) [] = (s', cp) # rs"
    by (cases "ms (fnDef_body n) (drop p s) []") auto
  then have "(s', cp) \<in> set (ms (fnDef_body n) (drop p s) [])"
    by simp
  then obtain ws' l' where w: "is_blank ws'" "l' \<in> {''!0'', ''!1''}"
    and d: "drop p s = gate_def ws' n l' @ s'" and cp: "cp = [(1, l')]"
    unfolding fnDef_results by blast
  have "gate_def ws n l @ r = gate_def ws' n l' @ s'"
    using assms(3) d by simp
  from gate_def_unique[OF assms(1,4) w(1) assms(5) w(2) this]
  have u: "ws = ws'" "l = l'" "r = s'" by simp_all
  have t: "take (length (drop p s) - length s') (drop p s) = gate_def ws n l"
    by (simp only: d u) simp
  have f: "first_at (\<lambda>t. ms (body (FD n)) t [] \<noteq> []) s p"
    using assms(2) by (simp only: first_at_FD)
  have le: "p \<le> length s" and nf: "\<forall>j < p. ms (body (FD n)) (drop j s) [] = []"
    using f by (simp_all add: first_at_def)
  have h': "ms (body (FD n)) (drop p s) [] = (s', cp) # rs"
    using h by (simp add: body_FD)
  have "scan (FD n) s 0 = Some \<lparr>index = 0 + p,
           matched = take (length (drop p s) - length s') (drop p s),
           captures = map (map_of cp) [1 ..< Suc (ngroups (FD n))]\<rparr>"
    using le nf h' by (rule scan_first)
  then show ?thesis
    using t cp u by (simp add: str_match_def ngroups_FD)
qed

lemma detect_located:
  assumes "findTodoWriteGate s = Some (Gate (Some n))" and "is_ident n"
    and "first_at (\<lambda>t. def_at n ''!0'' t \<or> def_at n ''!1'' t) s p"
    and "def_at n l (drop p s)" and "l \<in> {''!0'', ''!1''}"
  shows "detectTeamModeState s = Inr (if l = ''!0'' then Enabled else Disabled)"
proof -
  from assms(4) obtain ws r where d: "drop p s = gate_def ws n l @ r" "is_blank ws"
    by (auto simp: def_at_def)
  have "str_match s (FD n) = Some \<lparr>index = p, matched = gate_def ws n l, captures = [Some l]\<rparr>"
    using str_match_FD_ident[OF assms(2,3) d assms(5)] .
  then show ?thesis
    using assms(1)
    by (simp add: detectTeamModeState_def findGateDefinition_def fnDefRe_FD capture_def)
qed

lemma scenario_dispatch:
  "str_match scenario IS_ENABLED_FN_RE
     = Some \<lparr>index = 23, matched = ''isEnabled(){return!zz()}'', captures = [Some ''zz'']\<rparr>"
  by code_simp

lemma scenario_definition:
  "str_match scenario (FD ''zz'')
     = Some \<lparr>index = 50, matched = ''function zz(){return!1}'', captures = [Some ''!1'']\<rparr>"
  by code_simp

lemma scenario_replace:
  "str_replace scenario (FD ''zz'') ''function zz(){return!0}'' = scenario_enabled"
  by code_simp

lemma scenario_detect: "detectTeamModeState scenario = Inr Disabled"
  by (simp add: detectTeamModeState_def scenario_gate findGateDefinition_def fnDefRe_FD
      scenario_definition capture_def)

lemma scenario_set:
  "setTeamModeEnabled scenario True
     = Inr \<lparr>content = scenario_enabled, changed = True, state = Enabled\<rparr>"
  using scenario_replace
  by (simp add: setTeamModeEnabled_def scenario_gate fnDefRe_FD scenario_definition capture_def)

section \<open>What a replacement leaves alone\<close>

lemma nth_mid: "k < length w \<Longrightarrow> (a @ w @ b) ! (length a + k) = w ! k"
  by (simp add: nth_append)

lemma no_overlap_last:
  assumes "w \<noteq> []" "g \<noteq> []" "last w \<notin> set g" "last g \<notin> set w"
    and eq: "a @ w @ b = pre @ g @ post"
  shows "length a + length w \<le> length pre \<or> length pre + length g \<le> length a"
proof (rule ccontr)
  assume n: "\<not> (length a + length w \<le> length pre \<or> length pre + length g \<le> length a)"
  define j where "j = length a + (length w - 1)"
  define q where "q = length pre + (length g - 1)"
  have wl: "0 < length w" and gl: "0 < length g"
    using assms(1,2) by simp_all
  have jw: "(a @ w @ b) ! j = last w"
  proof -
    have "(a @ w @ b) ! j = w ! (length w - 1)"
      unfolding j_def using wl by (intro nth_mid) simp
    then show ?thesis
      using assms(1) by (simp add: last_conv_nth)
  qed
  have qg: "(pre @ g @ post) ! q = last g"
  proof -
    have "(pre @ g @ post) ! q = g ! (length g - 1)"
      unfolding q_def using gl by (intro nth_mid) simp
    then show ?thesis
      using assms(2) by (simp add: last_conv_nth)
  qed
  have jp: "length pre \<le> j"
    using n wl unfolding j_def by arith
  show False
  proof (cases "j < length pre + length g")
    case True
    define k where "k = j - length pre"
    have k: "k < length g" "j = length pre + k"
      using True jp unfolding k_def by arith+
    have "(pre @ g @ post) ! j = g ! k"
      unfolding k(2) using k(1) by (rule nth_mid)
    then have "(pre @ g @ post) ! j \<in> set g"
      using k(1) by simp
    then show False
      using jw eq assms(3) by simp
  next
    case False
    define k where "k = q - length a"
    have qa: "length a \<le> q"
      using n gl unfolding q_def by arith
    have "q < j"
      using False gl unfolding q_def by arith
    then have k: "k < length w" "q = length a + k"
      using qa wl unfolding k_def j_def by arith+
    have "(a @ w @ b) ! q = w ! k"
      unfolding k(2) using k(1) by (rule nth_mid)
    then have "(a @ w @ b) ! q \<in> set w"
      using k(1) by simp
    then show False
      using qg eq assms(4) by simp
  qed
qed

lemma not_space_chars:
  "\<not> is_space (CHR '';'')" "\<not> is_space (CHR ''}'')" "\<not> is_space (CHR ''('')"
  by (simp_all add: is_space_def cu_def)

lemma not_id_part_chars:
  "\<not> id_part (CHR '';'')" "\<not> id_part (CHR ''}'')" "\<not> id_part (CHR ''('')"
  "\<not> id_part (CHR ''!'')" "\<not> id_part (CHR '')'')" "\<not> id_part (CHR ''{'')"
  by (simp_all add: id_part_def is_word_def is_digit_def cu_def)

lemma set_gate_def:
  "set (gate_def ws n l) = set ''function'' \<union> set ws \<union> set n \<union> set ''(){return'' \<union> set l \<union> {CHR ''}''}"
  by (auto simp: gate_def_def)

lemma semicolon_not_in_gate_def:
  assumes "is_blank ws" "is_ident n" "l \<in> {''!0'', ''!1''}"
  shows "CHR '';'' \<notin> set (gate_def ws n l)"
proof -
  have "CHR '';'' \<notin> set ws"
    using assms(1) not_space_chars(1) by (auto simp: is_blank_def)
  moreover have "CHR '';'' \<notin> set n"
    using assms(2) not_id_part_chars(1) is_ident_chars by blast
  moreover have "CHR '';'' \<notin> set l"
    using assms(3) by auto
  ultimately show ?thesis
    unfolding set_gate_def by simp
qed

lemma brace_not_in_marker_word:
  assumes "marker_word mk"
  shows "CHR ''}'' \<notin> set mk"
proof -
  from assms obtain kw ws idn where mk: "mk = kw @ ws @ idn @ marker_tail"
    and kw: "kw \<in> {''var'', ''let'', ''const''}" and ws: "is_blank ws" and idn: "is_ident idn"
    unfolding marker_word_def by blast
  have "CHR ''}'' \<notin> set kw"
    using kw by auto
  moreover have "CHR ''}'' \<notin> set ws"
    using ws not_space_chars(2) by (auto simp: is_blank_def)
  moreover have "CHR ''}'' \<notin> set idn"
    using idn not_id_part_chars(2) is_ident_chars by blast
  moreover have "CHR ''}'' \<notin> set marker_tail"
    by (simp add: marker_tail_def)
  ultimately show ?thesis
    using mk by simp
qed

lemma last_marker_word: "marker_word mk \<Longrightarrow> mk \<noteq> [] \<and> last mk = CHR '';''"
  by (auto simp: marker_word_def marker_tail_def)

lemma last_gate_def: "gate_def ws n l \<noteq> [] \<and> last (gate_def ws n l) = CHR ''}''"
  by (simp add: gate_def_def)

lemma marker_outside_definition:
  assumes "marker_word mk" "is_blank ws" "is_ident n" "l \<in> {''!0'', ''!1''}"
    and "a @ mk @ b = pre @ gate_def ws n l @ post"
  shows "length a + length mk \<le> length pre \<or> length pre + length (gate_def ws n l) \<le> length a"
proof (rule no_overlap_last[OF _ _ _ _ assms(5)])
  show "mk \<noteq> []" using last_marker_word[OF assms(1)] by simp
  show "gate_def ws n l \<noteq> []" using last_gate_def by simp
  show "last mk \<notin> set (gate_def ws n l)"
    using last_marker_word[OF assms(1)] semicolon_not_in_gate_def[OF assms(2,3,4)] by simp
  show "last (gate_def ws n l) \<notin> set mk"
    using last_gate_def[of ws n l] brace_not_in_marker_word[OF assms(1)] by simp
qed

declare GetSubstitution.simps [simp del]

lemma gate_is_ident:
  assumes "findTodoWriteGate s = Some g"
  shows "\<exists>n. g = Gate (Some n) \<and> is_ident n"
  using assms unfolding findTodoWriteGate_iff by (auto simp: dispatch_at_def)

lemma set_no_gate:
  "findTodoWriteGate s = None \<Longrightarrow>
   setTeamModeEnabled s e = Inr \<lparr>content = s, changed = False, state = Unknown\<rparr>"
  by (simp add: setTeamModeEnabled_def)

lemma set_no_definition:
  "findTodoWriteGate s = Some (Gate (Some n)) \<Longrightarrow> str_match s (FD n) = None \<Longrightarrow>
   setTeamModeEnabled s e = Inr \<lparr>content = s, changed = False, state = Unknown\<rparr>"
  by (simp add: setTeamModeEnabled_def fnDefRe_FD)

lemma set_located:
  assumes "findTodoWriteGate s = Some (Gate (Some n))" and "str_match s (FD n) = Some m"
  shows "setTeamModeEnabled s e =
     Inr (if capture m 1 = Some (if e then ''!0'' else ''!1'')
          then \<lparr>content = s, changed = False, state = (if e then Enabled else Disabled)\<rparr>
          else \<lparr>content = take (index m) s
                  @ GetSubstitution (matched m) s (index m) (captures m)
                      (''function '' @ n @ ''(){return'' @ (if e then ''!0'' else ''!1'') @ ''}'')
                  @ drop (index m + length (matched m)) s,
                changed = True, state = (if e then Enabled else Disabled)\<rparr>)"
proof -
  have "scan (FD n) s 0 = Some m"
    using assms(2) by (simp add: str_match_def)
  then show ?thesis
    using assms by (simp add: setTeamModeEnabled_def fnDefRe_FD str_replace_def global_FD Let_def)
qed

text \<open>
  C5. \<open>setTeamModeEnabled\<close> always returns a result. When it reports no change the content
  is the input. When it reports a change, the input is \<open>pre @ m @ post\<close> and the output is
  \<open>pre @ new @ post\<close>, where \<open>m\<close> is the first occurrence of a definition of the gate
  function: everything before and after that one occurrence is kept. Every occurrence of
  the gate marker in the input lies wholly before \<open>m\<close> or wholly after it, so no marker is
  touched.
\<close>

theorem set_frame:
  "\<exists>r. setTeamModeEnabled s e = Inr r \<and>
     (if changed r then
        (\<exists>pre m new post n ws l. s = pre @ m @ post \<and> content r = pre @ new @ post
           \<and> findTodoWriteGate s = Some (Gate (Some n))
           \<and> m = gate_def ws n l \<and> is_blank ws \<and> l \<in> {''!0'', ''!1''}
           \<and> first_at (\<lambda>t. def_at n ''!0'' t \<or> def_at n ''!1'' t) s (length pre)
           \<and> (\<forall>a mk b. marker_word mk \<and> s = a @ mk @ b \<longrightarrow>
                 length a + length mk \<le> length pre \<or> length pre + length m \<le> length a))
      else content r = s)"
proof (cases "findTodoWriteGate s")
  case None
  then show ?thesis by (simp add: set_no_gate)
next
  case (Some g)
  then obtain n where g: "findTodoWriteGate s = Some (Gate (Some n))" and i: "is_ident n"
    using gate_is_ident by blast
  show ?thesis
  proof (cases "str_match s (FD n)")
    case None
    then show ?thesis using g by (simp add: set_no_definition)
  next
    case (Some m)
    from str_match_FD_D[OF Some] obtain ws l rest where w: "is_blank ws" "l \<in> {''!0'', ''!1''}"
      and f: "first_at (\<lambda>t. def_at n ''!0'' t \<or> def_at n ''!1'' t) s (index m)"
      and d: "drop (index m) s = gate_def ws n l @ rest"
      and mm: "matched m = gate_def ws n l" and c: "captures m = [Some l]"
      by blast
    define pre where "pre = take (index m) s"
    have le: "index m \<le> length s"
      using f by (simp add: first_at_def)
    then have lp: "length pre = index m"
      by (simp add: pre_def)
    have s: "s = pre @ gate_def ws n l @ rest"
      unfolding pre_def using d by (metis append_take_drop_id)
    have post: "drop (index m + length (matched m)) s = rest"
      using s lp mm by (metis append_eq_conv_conj add.commute drop_drop d)
    show ?thesis
    proof (cases "capture m 1 = Some (if e then ''!0'' else ''!1'')")
      case True
      then show ?thesis
        using set_located[OF g Some, of e] by simp
    next
      case False
      define new where "new = GetSubstitution (matched m) s (index m) (captures m)
                      (''function '' @ n @ ''(){return'' @ (if e then ''!0'' else ''!1'') @ ''}'')"
      define r where "r = \<lparr>content = pre @ new @ rest, changed = True,
                            state = (if e then Enabled else Disabled)\<rparr>"
      have r: "setTeamModeEnabled s e = Inr r"
        using set_located[OF g Some, of e] False
        by (simp add: r_def new_def pre_def post)
      have mk: "\<forall>a mk b. marker_word mk \<and> s = a @ mk @ b \<longrightarrow>
                 length a + length mk \<le> length pre \<or> length pre + length (gate_def ws n l) \<le> length a"
      proof (intro allI impI)
        fix a mk b assume h: "marker_word mk \<and> s = a @ mk @ b"
        then have "a @ mk @ b = pre @ gate_def ws n l @ rest"
          using s by simp
        then show "length a + length mk \<le> length pre \<or> length pre + length (gate_def ws n l) \<le> length a"
          using h w i by (intro marker_outside_definition) simp_all
      qed
      have "s = pre @ gate_def ws n l @ rest \<and> content r = pre @ new @ rest
           \<and> findTodoWriteGate s = Some (Gate (Some n))
           \<and> gate_def ws n l = gate_def ws n l \<and> is_blank ws \<and> l \<in> {''!0'', ''!1''}
           \<and> first_at (\<lambda>t. def_at n ''!0'' t \<or> def_at n ''!1'' t) s (length pre)
           \<and> (\<forall>a mk b. marker_word mk \<and> s = a @ mk @ b \<longrightarrow>
                 length a + length mk \<le> length pre \<or> length pre + length (gate_def ws n l) \<le> length a)"
        using s g w f lp mk by (simp add: r_def)
      then have "\<exists>pre m new post n ws l. s = pre @ m @ post \<and> content r = pre @ new @ post
           \<and> findTodoWriteGate s = Some (Gate (Some n))
           \<and> m = gate_def ws n l \<and> is_blank ws \<and> l \<in> {''!0'', ''!1''}
           \<and> first_at (\<lambda>t. def_at n ''!0'' t \<or> def_at n ''!1'' t) s (length pre)
           \<and> (\<forall>a mk b. marker_word mk \<and> s = a @ mk @ b \<longrightarrow>
                 length a + length mk \<le> length pre \<or> length pre + length m \<le> length a)"
        by blast
      moreover have "changed r"
        by (simp add: r_def)
      ultimately show ?thesis
        using r by auto
    qed
  qed
qed


lemma marker_word_scenario: "marker_word scenario_marker"
proof -
  have "scenario_marker = ''const'' @ '' '' @ ''x'' @ marker_tail"
    by (simp add: scenario_marker_def marker_tail_def)
  moreover have "is_ident ''x''"
    by (simp add: is_ident_def id_start_def cu_def)
  ultimately show ?thesis
    unfolding marker_word_def using is_blank_single_space by blast
qed

theorem set_frame_witness:
  "\<exists>r pre m new post. setTeamModeEnabled scenario True = Inr r \<and> changed r
     \<and> scenario = pre @ m @ post \<and> content r = pre @ new @ post
     \<and> first_at (\<lambda>t. def_at ''zz'' ''!0'' t \<or> def_at ''zz'' ''!1'' t) scenario (length pre)
     \<and> marker_word scenario_marker
     \<and> scenario = [] @ scenario_marker @ drop 20 scenario
     \<and> (length ([] :: string) + length scenario_marker \<le> length pre
          \<or> length pre + length m \<le> length ([] :: string))"
proof -
  from set_frame[of scenario True] obtain r where
    r: "setTeamModeEnabled scenario True = Inr r"
    and p: "if changed r then
        (\<exists>pre m new post n ws l. scenario = pre @ m @ post \<and> content r = pre @ new @ post
           \<and> findTodoWriteGate scenario = Some (Gate (Some n))
           \<and> m = gate_def ws n l \<and> is_blank ws \<and> l \<in> {''!0'', ''!1''}
           \<and> first_at (\<lambda>t. def_at n ''!0'' t \<or> def_at n ''!1'' t) scenario (length pre)
           \<and> (\<forall>a mk b. marker_word mk \<and> scenario = a @ mk @ b \<longrightarrow>
                 length a + length mk \<le> length pre \<or> length pre + length m \<le> length a))
      else content r = scenario"
    by blast
  have "r = \<lparr>content = scenario_enabled, changed = True, state = Enabled\<rparr>"
    using r scenario_set by simp
  then have c: "changed r"
    by simp
  with p obtain pre m new post n ws l where
    q: "scenario = pre @ m @ post" "content r = pre @ new @ post"
       "findTodoWriteGate scenario = Some (Gate (Some n))"
       "first_at (\<lambda>t. def_at n ''!0'' t \<or> def_at n ''!1'' t) scenario (length pre)"
    and mk: "\<forall>a mk b. marker_word mk \<and> scenario = a @ mk @ b \<longrightarrow>
                 length a + length mk \<le> length pre \<or> length pre + length m \<le> length a"
    by auto
  have n: "n = ''zz''"
    using q(3) scenario_gate by simp
  have e: "scenario = [] @ scenario_marker @ drop 20 scenario"
    by (simp add: scenario_def scenario_marker_def)
  have "length ([] :: string) + length scenario_marker \<le> length pre
          \<or> length pre + length m \<le> length ([] :: string)"
    using mk[rule_format, of scenario_marker "[]" "drop 20 scenario"] marker_word_scenario e
    by blast
  then show ?thesis
    using r c q(1,2,4) n marker_word_scenario e by blast
qed

section \<open>Names with a dollar sign\<close>

lemma gate_eval:
  assumes "str_search s TODO_WRITE_MARKER = Some 0" and "take 8000 s = s"
    and "map_option (\<lambda>m. capture m 1) (str_match s IS_ENABLED_FN_RE) = Some (Some n)"
  shows "findTodoWriteGate s = Some (Gate (Some n))"
  using assms by (auto simp: findTodoWriteGate_def)

lemma set_true_eval:
  assumes "findTodoWriteGate s = Some (Gate (Some n))"
    and "str_match s (FD n) = Some m" and "capture m 1 = Some ''!1''"
    and "str_replace s (FD n) (''function '' @ n @ ''(){return!0}'') = out"
  shows "setTeamModeEnabled s True = Inr \<lparr>content = out, changed = True, state = Enabled\<rparr>"
  using assms by (simp add: setTeamModeEnabled_def fnDefRe_FD)

lemma detect_no_definition:
  assumes "findTodoWriteGate s = Some (Gate (Some n))" and "str_match s (FD n) = None"
  shows "detectTeamModeState s = Inr Unknown"
  using assms by (simp add: detectTeamModeState_def findGateDefinition_def fnDefRe_FD)

lemma bundle_dollar_gate: "findTodoWriteGate bundle_dollar = Some (Gate (Some ''a$1''))"
proof (rule gate_eval)
  show "str_search bundle_dollar TODO_WRITE_MARKER = Some 0" by code_simp
  show "take 8000 bundle_dollar = bundle_dollar" by (simp add: bundle_dollar_def)
  show "map_option (\<lambda>m. capture m 1) (str_match bundle_dollar IS_ENABLED_FN_RE) = Some (Some ''a$1'')"
    by code_simp
qed

lemma bundle_dollar_enabled_gate:
  "findTodoWriteGate bundle_dollar_enabled = Some (Gate (Some ''a$1''))"
proof (rule gate_eval)
  show "str_search bundle_dollar_enabled TODO_WRITE_MARKER = Some 0" by code_simp
  show "take 8000 bundle_dollar_enabled = bundle_dollar_enabled" by (simp add: bundle_dollar_enabled_def)
  show "map_option (\<lambda>m. capture m 1) (str_match bundle_dollar_enabled IS_ENABLED_FN_RE)
          = Some (Some ''a$1'')"
    by code_simp
qed

text \<open>
  C1 fails on the code. The replacement text is handed to \<open>String.prototype.replace\<close>,
  where \<open>$1\<close> stands for the first capture group. For the gate name \<open>a$1\<close> the rewritten
  definition reads \<open>function a!1(){return!0}\<close>, not \<open>function a$1(){return!0}\<close>; the result
  is reported as \<open>enabled\<close>, yet \<open>detectTeamModeState\<close> no longer finds the gate in it.
\<close>

theorem dollar_name_rewritten:
  "findTodoWriteGate bundle_dollar = Some (Gate (Some ''a$1''))
   \<and> setTeamModeEnabled bundle_dollar True
       = Inr \<lparr>content = bundle_dollar_enabled, changed = True, state = Enabled\<rparr>
   \<and> detectTeamModeState bundle_dollar_enabled = Inr Unknown"
proof -
  have m: "str_match bundle_dollar (FD ''a$1'')
      = Some \<lparr>index = 45, matched = ''function a$1(){return!1}'', captures = [Some ''!1'']\<rparr>"
    by code_simp
  have r: "str_replace bundle_dollar (FD ''a$1'') (''function '' @ ''a$1'' @ ''(){return!0}'')
      = bundle_dollar_enabled"
    by code_simp
  have s: "setTeamModeEnabled bundle_dollar True
       = Inr \<lparr>content = bundle_dollar_enabled, changed = True, state = Enabled\<rparr>"
    using bundle_dollar_gate m _ r by (rule set_true_eval) (simp add: capture_def)
  have "str_match bundle_dollar_enabled (FD ''a$1'') = None"
    by code_simp
  then have d: "detectTeamModeState bundle_dollar_enabled = Inr Unknown"
    using bundle_dollar_enabled_gate by (intro detect_no_definition)
  show ?thesis
    using bundle_dollar_gate s d by simp
qed

lemma bundle_twice_gate: "findTodoWriteGate bundle_twice = Some (Gate (Some ''a$1''))"
proof (rule gate_eval)
  show "str_search bundle_twice TODO_WRITE_MARKER = Some 0" by code_simp
  show "take 8000 bundle_twice = bundle_twice" by (simp add: bundle_twice_def)
  show "map_option (\<lambda>m. capture m 1) (str_match bundle_twice IS_ENABLED_FN_RE) = Some (Some ''a$1'')"
    by code_simp
qed

lemma bundle_twice_first_gate: "findTodoWriteGate bundle_twice_first = Some (Gate (Some ''a$1''))"
proof (rule gate_eval)
  show "str_search bundle_twice_first TODO_WRITE_MARKER = Some 0" by code_simp
  show "take 8000 bundle_twice_first = bundle_twice_first" by (simp add: bundle_twice_first_def)
  show "map_option (\<lambda>m. capture m 1) (str_match bundle_twice_first IS_ENABLED_FN_RE)
          = Some (Some ''a$1'')"
    by code_simp
qed

text \<open>
  C8 fails on the code, by the same defect. When the content has two definitions of the
  gate function \<open>a$1\<close>, the first call rewrites the first one to \<open>function a!1(){return!0}\<close>;
  the second call no longer recognises it, finds the second definition and rewrites that:
  it reports \<open>changed = true\<close> again and returns a different content.
\<close>

theorem dollar_name_not_idempotent:
  "setTeamModeEnabled bundle_twice True
       = Inr \<lparr>content = bundle_twice_first, changed = True, state = Enabled\<rparr>
   \<and> setTeamModeEnabled bundle_twice_first True
       = Inr \<lparr>content = bundle_twice_second, changed = True, state = Enabled\<rparr>
   \<and> bundle_twice_second \<noteq> bundle_twice_first"
proof -
  have m1: "str_match bundle_twice (FD ''a$1'')
      = Some \<lparr>index = 45, matched = ''function a$1(){return!1}'', captures = [Some ''!1'']\<rparr>"
    by code_simp
  have r1: "str_replace bundle_twice (FD ''a$1'') (''function '' @ ''a$1'' @ ''(){return!0}'')
      = bundle_twice_first"
    by code_simp
  have s1: "setTeamModeEnabled bundle_twice True
       = Inr \<lparr>content = bundle_twice_first, changed = True, state = Enabled\<rparr>"
    using bundle_twice_gate m1 _ r1 by (rule set_true_eval) (simp add: capture_def)
  have m2: "str_match bundle_twice_first (FD ''a$1'')
      = Some \<lparr>index = 70, matched = ''function a$1(){return!1}'', captures = [Some ''!1'']\<rparr>"
    by code_simp
  have r2: "str_replace bundle_twice_first (FD ''a$1'') (''function '' @ ''a$1'' @ ''(){return!0}'')
      = bundle_twice_second"
    by code_simp
  have s2: "setTeamModeEnabled bundle_twice_first True
       = Inr \<lparr>content = bundle_twice_second, changed = True, state = Enabled\<rparr>"
    using bundle_twice_first_gate m2 _ r2 by (rule set_true_eval) (simp add: capture_def)
  have "bundle_twice_second \<noteq> bundle_twice_first"
    by (simp add: bundle_twice_second_def bundle_twice_first_def)
  then show ?thesis
    using s1 s2 by simp
qed

section \<open>Parsing a preset list\<close>

lemma split_nonempty: "split sep s \<noteq> []"
  by (induction s) (auto split: list.splits)

lemma split_no_sep: "t \<in> set (split sep s) \<Longrightarrow> sep \<notin> set t"
proof (induction s arbitrary: t)
  case Nil
  then show ?case by simp
next
  case (Cons c s)
  show ?case
  proof (cases "c = sep")
    case True
    then show ?thesis using Cons by auto
  next
    case False
    obtain h r where hr: "split sep s = h # r"
      using split_nonempty[of sep s] by (cases "split sep s") auto
    then have "t = c # h \<or> t \<in> set r"
      using Cons.prems False by simp
    then show ?thesis
      using Cons.IH[of h] Cons.IH[of t] hr False by auto
  qed
qed

lemma join_Cons: "ts \<noteq> [] \<Longrightarrow> join (t # ts) = t @ CHR '','' # join ts"
  by (cases ts) simp_all

lemma join_split: "join (split (CHR '','') s) = s"
proof (induction s)
  case Nil
  then show ?case by simp
next
  case (Cons c s)
  show ?case
  proof (cases "c = CHR '',''")
    case True
    then show ?thesis
      using Cons split_nonempty[of "CHR '',''" s] by (simp add: join_Cons)
  next
    case False
    obtain h r where hr: "split (CHR '','') s = h # r"
      using split_nonempty[of "CHR '',''" s] by (cases "split (CHR '','') s") auto
    have "join ((c # h) # r) = c # join (h # r)"
      by (cases r) simp_all
    then show ?thesis
      using Cons hr False by simp
  qed
qed

lemma known_preset: "getMcpPreset k \<noteq> None \<longleftrightarrow> k \<in> {''codex'', ''gemini''}"
  by (auto simp: getMcpPreset_def MCP_PRESETS_def CODEX_PRESET_def GEMINI_PRESET_def)

lemma trim_decomposition:
  "\<exists>lead trail. t = lead @ trim t @ trail
     \<and> (\<forall>c \<in> set lead. is_space c) \<and> (\<forall>c \<in> set trail. is_space c)
     \<and> (trim t = [] \<or> (\<not> is_space (hd (trim t)) \<and> \<not> is_space (last (trim t))))"
proof -
  define u where "u = dropWhile is_space t"
  define v where "v = dropWhile is_space (rev u)"
  have t: "t = takeWhile is_space t @ u"
    by (simp add: u_def)
  have "rev u = takeWhile is_space (rev u) @ v"
    by (simp add: v_def)
  then have "u = rev v @ rev (takeWhile is_space (rev u))"
    by (metis rev_append rev_rev_ident)
  then have d: "t = takeWhile is_space t @ trim t @ rev (takeWhile is_space (rev u))"
    using t by (simp add: trim_def u_def v_def)
  have l: "\<forall>c \<in> set (takeWhile is_space t). is_space c"
    by (auto dest: set_takeWhileD)
  have r: "\<forall>c \<in> set (rev (takeWhile is_space (rev u))). is_space c"
    by (auto dest: set_takeWhileD)
  have e: "trim t = [] \<or> (\<not> is_space (hd (trim t)) \<and> \<not> is_space (last (trim t)))"
  proof (cases "v = []")
    case True
    then show ?thesis by (simp add: trim_def u_def v_def)
  next
    case False
    then have hv: "\<not> is_space (hd v)"
      unfolding v_def by (metis hd_dropWhile)
    have vu: "v \<noteq> [] \<Longrightarrow> u \<noteq> []"
      by (auto simp: v_def)
    have "rev v = trim t"
      by (simp add: trim_def u_def v_def)
    have lastv: "last (rev v) = hd v"
      using False by (simp add: last_rev)
    have "hd (rev v) = hd u"
    proof -
      have "u = rev v @ rev (takeWhile is_space (rev u))"
        using \<open>u = rev v @ rev (takeWhile is_space (rev u))\<close> .
      then have "hd u = hd (rev v @ rev (takeWhile is_space (rev u)))"
        by simp
      then show ?thesis
        using False by simp
    qed
    moreover have "\<not> is_space (hd u)"
      using vu[OF False] unfolding u_def by (metis hd_dropWhile)
    ultimately show ?thesis
      using hv lastv \<open>rev v = trim t\<close> by auto
  qed
  show ?thesis
    using d l r e by blast
qed

text \<open>
  C9. For an undefined or empty input \<open>parseMcpPresets\<close> returns the empty list. For any
  other input it cuts the text at its commas (the tokens contain no comma and spell the
  input when joined with commas), strips the whitespace around each token, lowercases
  it, and returns, in the order of the input, exactly those that are the key of a known
  preset (\<open>codex\<close> or \<open>gemini\<close>); the others are dropped.
\<close>

theorem parseMcpPresets_spec:
  "parseMcpPresets None = [] \<and> parseMcpPresets (Some []) = []
   \<and> (\<exists>ts. join ts = s \<and> (\<forall>t \<in> set ts. CHR '','' \<notin> set t)
         \<and> parseMcpPresets (Some s)
             = filter (\<lambda>k. k \<in> {''codex'', ''gemini''}) (map (\<lambda>t. toLowerCase (trim t)) ts))
   \<and> (\<forall>t. \<exists>lead trail. t = lead @ trim t @ trail
         \<and> (\<forall>c \<in> set lead. is_space c) \<and> (\<forall>c \<in> set trail. is_space c)
         \<and> (trim t = [] \<or> (\<not> is_space (hd (trim t)) \<and> \<not> is_space (last (trim t)))))
   \<and> (\<forall>t. toLowerCase t = map lower_char t)
   \<and> set (parseMcpPresets (Some s)) \<subseteq> key ` set MCP_PRESETS"
proof -
  have f: "filter (\<lambda>k. getMcpPreset k \<noteq> None) xs = filter (\<lambda>k. k \<in> {''codex'', ''gemini''}) xs" for xs
    by (rule filter_cong) (simp_all only: known_preset)
  have p: "parseMcpPresets (Some s)
      = filter (\<lambda>k. k \<in> {''codex'', ''gemini''})
          (map (\<lambda>t. toLowerCase (trim t)) (split (CHR '','') s))"
  proof (cases "s = []")
    case True
    then show ?thesis
      by (simp add: parseMcpPresets_def trim_def toLowerCase_def)
  next
    case False
    then show ?thesis
      by (simp only: parseMcpPresets_def option.case if_False f)
  qed
  have a: "\<exists>ts. join ts = s \<and> (\<forall>t \<in> set ts. CHR '','' \<notin> set t)
         \<and> parseMcpPresets (Some s)
             = filter (\<lambda>k. k \<in> {''codex'', ''gemini''}) (map (\<lambda>t. toLowerCase (trim t)) ts)"
    using join_split[of s] split_no_sep[of _ "CHR '',''" s] p by blast
  have k: "set (parseMcpPresets (Some s)) \<subseteq> key ` set MCP_PRESETS"
    unfolding p by (auto simp: MCP_PRESETS_def CODEX_PRESET_def GEMINI_PRESET_def)
  show ?thesis
    using a k trim_decomposition by (simp add: parseMcpPresets_def toLowerCase_def)
qed


theorem parseMcpPresets_spec_witness:
  "parseMcpPresets (Some ''Codex , nope,GEMINI'') = [''codex'', ''gemini'']
   \<and> (\<exists>ts. join ts = ''Codex , nope,GEMINI'' \<and> ts \<noteq> [] \<and> CHR '','' \<notin> set (hd ts)
         \<and> parseMcpPresets (Some ''Codex , nope,GEMINI'')
             = filter (\<lambda>k. k \<in> {''codex'', ''gemini''}) (map (\<lambda>t. toLowerCase (trim t)) ts))"
proof -
  have e: "parseMcpPresets (Some ''Codex , nope,GEMINI'') = [''codex'', ''gemini'']"
    by code_simp
  from parseMcpPresets_spec[of "''Codex , nope,GEMINI''"] obtain ts where
    ts: "join ts = ''Codex , nope,GEMINI''" "\<forall>t \<in> set ts. CHR '','' \<notin> set t"
      "parseMcpPresets (Some ''Codex , nope,GEMINI'')
             = filter (\<lambda>k. k \<in> {''codex'', ''gemini''}) (map (\<lambda>t. toLowerCase (trim t)) ts)"
    by blast
  have n: "ts \<noteq> []"
    using ts(1) by auto
  then have "CHR '','' \<notin> set (hd ts)"
    using ts(2) by simp
  then show ?thesis
    using e ts n by blast
qed

section \<open>Words that cannot overlap\<close>

lemma occurs_at_nth:
  assumes "occurs_at w s j" and "k < length w"
  shows "s ! (j + k) = w ! k"
  using assms unfolding occurs_at_def by (auto simp: nth_append)

lemma occurs_at_length: "occurs_at w s j \<Longrightarrow> j + length w \<le> length s"
  unfolding occurs_at_def by auto

lemma occurs_at_take_drop: "occurs_at w s j \<longleftrightarrow> j + length w \<le> length s \<and> take (length w) (drop j s) = w"
proof
  assume "occurs_at w s j"
  then show "j + length w \<le> length s \<and> take (length w) (drop j s) = w"
    unfolding occurs_at_def by auto
next
  assume a: "j + length w \<le> length s \<and> take (length w) (drop j s) = w"
  have "drop j s = take (length w) (drop j s) @ drop (length w) (drop j s)"
    by (simp only: append_take_drop_id)
  then have "s = take j s @ take (length w) (drop j s) @ drop (length w) (drop j s)"
    by (metis append_take_drop_id)
  moreover have "length (take j s) = j"
    using a by simp
  ultimately show "occurs_at w s j"
    unfolding occurs_at_def using a by metis
qed

text \<open>
  Two words that end in the same character, which occurs nowhere else in either: in one
  text they lie apart, or they end at the same place.
\<close>

lemma unique_last_overlap:
  assumes u: "u \<noteq> []" "last u = c" "c \<notin> set (butlast u)"
    and v: "v \<noteq> []" "last v = c" "c \<notin> set (butlast v)"
    and ou: "occurs_at u s i" and ov: "occurs_at v s j"
  shows "i + length u \<le> j \<or> j + length v \<le> i \<or> i + length u = j + length v"
proof (rule ccontr)
  assume n: "\<not> (i + length u \<le> j \<or> j + length v \<le> i \<or> i + length u = j + length v)"
  have ul: "0 < length u" and vl: "0 < length v"
    using u(1) v(1) by simp_all
  have lu: "s ! (i + (length u - 1)) = c"
  proof -
    have "s ! (i + (length u - 1)) = u ! (length u - 1)"
      using ul by (intro occurs_at_nth[OF ou]) simp
    also have "\<dots> = last u"
      using last_conv_nth[OF u(1)] by simp
    finally show ?thesis using u(2) by simp
  qed
  have lv: "s ! (j + (length v - 1)) = c"
  proof -
    have "s ! (j + (length v - 1)) = v ! (length v - 1)"
      using vl by (intro occurs_at_nth[OF ov]) simp
    also have "\<dots> = last v"
      using last_conv_nth[OF v(1)] by simp
    finally show ?thesis using v(2) by simp
  qed
  show False
  proof (cases "i + length u < j + length v")
    case True
    define k where "k = i + (length u - 1) - j"
    have k: "k < length v - 1" "i + (length u - 1) = j + k"
      using True n ul unfolding k_def by arith+
    have "s ! (j + k) = v ! k"
      using occurs_at_nth[OF ov, of k] k(1) by simp
    also have "v ! k = butlast v ! k"
      using k(1) by (simp add: nth_butlast)
    finally have "c = butlast v ! k"
      using lu k(2) by simp
    then have "c \<in> set (butlast v)"
      using k(1) by (metis length_butlast nth_mem)
    then show False using v(3) by simp
  next
    case False
    define k where "k = j + (length v - 1) - i"
    have k: "k < length u - 1" "j + (length v - 1) = i + k"
      using False n vl unfolding k_def by arith+
    have "s ! (i + k) = u ! k"
      using occurs_at_nth[OF ou, of k] k(1) by simp
    also have "u ! k = butlast u ! k"
      using k(1) by (simp add: nth_butlast)
    finally have "c = butlast u ! k"
      using lv k(2) by simp
    then have "c \<in> set (butlast u)"
      using k(1) by (metis length_butlast nth_mem)
    then show False using u(3) by simp
  qed
qed

lemma same_end_suffix:
  assumes "occurs_at u s i" and "occurs_at v s j"
    and "i + length u = j + length v" and "i \<le> j"
  shows "\<exists>p. u = p @ v \<and> length p = j - i"
proof -
  from assms(1) obtain a b where a: "s = a @ u @ b" "length a = i"
    unfolding occurs_at_def by blast
  from assms(2) obtain a' b' where b: "s = a' @ v @ b'" "length a' = j"
    unfolding occurs_at_def by blast
  have lb: "length b = length b'"
  proof -
    have "length s = i + length u + length b" using a by simp
    moreover have "length s = j + length v + length b'" using b by simp
    ultimately show ?thesis using assms(3) by simp
  qed
  have "(a @ u) @ b = (a' @ v) @ b'"
    using a(1) b(1) by simp
  then have e: "a @ u = a' @ v"
    using lb append_eq_append_conv[of "a @ u" "a' @ v" b b'] by blast
  have "length a \<le> length a'"
    using a(2) b(2) assms(4) by simp
  then obtain p where p: "a' = a @ p"
    using e by (metis append_eq_append_conv_if append_take_drop_id)
  then have "u = p @ v"
    using e by simp
  moreover have "length p = j - i"
    using p a(2) b(2) by auto
  ultimately show ?thesis by blast
qed

lemma split_last_unique:
  assumes "A @ c # B = A' @ c # B'" and "c \<notin> set B" and "c \<notin> set B'"
  shows "A = A' \<and> B = B'"
proof -
  have "rev B @ c # rev A = rev B' @ c # rev A'"
    using assms(1) by (metis rev.simps(2) rev_append append_Cons append_Nil append_assoc)
  moreover have "takeWhile (\<lambda>x. x \<noteq> c) (rev B @ c # rev A) = rev B"
    using assms(2) by (auto simp: takeWhile_tail takeWhile_eq_all_conv)
  moreover have "takeWhile (\<lambda>x. x \<noteq> c) (rev B' @ c # rev A') = rev B'"
    using assms(3) by (auto simp: takeWhile_tail takeWhile_eq_all_conv)
  ultimately have "rev B = rev B'"
    by simp
  then have "B = B'" by simp
  then show ?thesis using assms(1) by simp
qed

lemma is_ident_no_char:
  assumes "is_ident n" and "\<not> id_part c"
  shows "c \<notin> set n"
  using assms is_ident_chars by blast

lemma is_blank_no_char:
  assumes "is_blank ws" and "\<not> is_space c"
  shows "c \<notin> set ws"
  using assms by (auto simp: is_blank_def)

lemma dispatch_nonempty: "dispatch n \<noteq> []"
  by (simp add: dispatch_def)

lemma butlast_dispatch: "butlast (dispatch n) = ''isEnabled(){return!'' @ n @ ''()''"
  by (simp add: dispatch_def butlast_append)

lemma last_dispatch: "last (dispatch n) = CHR ''}''"
  by (simp add: dispatch_def)

lemma brace_not_in_butlast_dispatch:
  "is_ident n \<Longrightarrow> CHR ''}'' \<notin> set (butlast (dispatch n))"
  using is_ident_no_char[of n "CHR ''}''"] not_id_part_chars(2)
  by (simp add: butlast_dispatch)

lemma gate_def_nonempty: "gate_def ws n l \<noteq> []"
  by (simp add: gate_def_def)

lemma butlast_gate_def: "butlast (gate_def ws n l) = ''function'' @ ws @ n @ ''(){return'' @ l"
  by (simp add: gate_def_def butlast_append)

lemma last_gate_def': "last (gate_def ws n l) = CHR ''}''"
  by (simp add: gate_def_def)

lemma brace_not_in_butlast_gate_def:
  assumes "is_ident n" "is_blank ws" "l \<in> {''!0'', ''!1''}"
  shows "CHR ''}'' \<notin> set (butlast (gate_def ws n l))"
proof -
  have "CHR ''}'' \<notin> set n"
    using assms(1) not_id_part_chars(2) by (rule is_ident_no_char)
  moreover have "CHR ''}'' \<notin> set ws"
    using assms(2) not_space_chars(2) by (rule is_blank_no_char)
  moreover have "CHR ''}'' \<notin> set l"
    using assms(3) by auto
  ultimately show ?thesis
    by (simp add: butlast_gate_def)
qed

lemma last_butlast_dispatch: "last (butlast (dispatch n)) = CHR '')''"
  by (simp add: butlast_dispatch)

lemma last_butlast_gate_def:
  "l \<in> {''!0'', ''!1''} \<Longrightarrow> last (butlast (gate_def ws n l)) \<in> {CHR ''0'', CHR ''1''}"
  by (auto simp: butlast_gate_def)

lemma suffix_last_butlast:
  assumes "u = p @ v" and "butlast v \<noteq> []"
  shows "last (butlast u) = last (butlast v)"
proof -
  have "v \<noteq> []" using assms(2) by auto
  then have "butlast u = p @ butlast v"
    using assms(1) by (simp add: butlast_append)
  then show ?thesis
    using assms(2) by simp
qed

text \<open>A dispatch call and a gate definition never share a character of the text.\<close>

lemma dispatch_apart_def:
  assumes e: "dispatch_word e" and g: "def_word n g" "is_ident n"
    and oe: "occurs_at e s i" and og: "occurs_at g s j"
  shows "i + length e \<le> j \<or> j + length g \<le> i"
proof -
  from e obtain n' where n': "is_ident n'" "e = dispatch n'"
    unfolding dispatch_word_def by blast
  from g(1) obtain ws l where wl: "is_blank ws" "l \<in> {''!0'', ''!1''}" "g = gate_def ws n l"
    unfolding def_word_def by blast
  have be: "butlast e \<noteq> []" and bg: "butlast g \<noteq> []"
    using n'(2) wl(3) by (simp_all add: butlast_dispatch butlast_gate_def)
  have le: "last (butlast e) = CHR '')''"
    using n'(2) by (simp add: last_butlast_dispatch)
  have lg: "last (butlast g) \<in> {CHR ''0'', CHR ''1''}"
    using wl(2,3) last_butlast_gate_def by simp
  have "i + length e \<le> j \<or> j + length g \<le> i \<or> i + length e = j + length g"
  proof (rule unique_last_overlap[OF _ _ _ _ _ _ oe og])
    show "e \<noteq> []" using n'(2) dispatch_nonempty by simp
    show "last e = CHR ''}''" using n'(2) last_dispatch by simp
    show "CHR ''}'' \<notin> set (butlast e)" using n' brace_not_in_butlast_dispatch by simp
    show "g \<noteq> []" using wl(3) gate_def_nonempty by simp
    show "last g = CHR ''}''" using wl(3) last_gate_def' by simp
    show "CHR ''}'' \<notin> set (butlast g)"
      using wl g(2) brace_not_in_butlast_gate_def by simp
  qed
  moreover have "i + length e \<noteq> j + length g"
  proof
    assume eq: "i + length e = j + length g"
    show False
    proof (cases "i \<le> j")
      case True
      from same_end_suffix[OF oe og eq True] obtain p where "e = p @ g" by blast
      then have "last (butlast e) = last (butlast g)"
        using bg by (rule suffix_last_butlast)
      then show False using le lg by auto
    next
      case False
      then have "j \<le> i" by simp
      from same_end_suffix[OF og oe eq[symmetric] this] obtain p where "g = p @ e" by blast
      then have "last (butlast g) = last (butlast e)"
        using be by (rule suffix_last_butlast)
      then show False using le lg by auto
    qed
  qed
  ultimately show ?thesis by blast
qed

lemma brace_open_not_in_ident: "is_ident n \<Longrightarrow> CHR ''{'' \<notin> set n"
  using not_id_part_chars(6) by (rule is_ident_no_char[rotated])

lemma dispatch_split:
  "dispatch n = ''isEnabled()'' @ CHR ''{'' # (''return!'' @ n @ ''()}'')"
  by (simp add: dispatch_def)

lemma gate_def_split:
  "gate_def ws n l = (''function'' @ ws @ n @ ''()'') @ CHR ''{'' # (''return'' @ l @ ''}'')"
  by (simp add: gate_def_def)

text \<open>Two dispatch calls in one text lie apart.\<close>

lemma dispatch_apart:
  assumes e: "dispatch_word e" and e': "dispatch_word e'"
    and oe: "occurs_at e s i" and oe': "occurs_at e' s j" and lt: "i < j"
  shows "i + length e \<le> j"
proof -
  from e obtain n where n: "is_ident n" "e = dispatch n"
    unfolding dispatch_word_def by blast
  from e' obtain n' where n': "is_ident n'" "e' = dispatch n'"
    unfolding dispatch_word_def by blast
  have "i + length e \<le> j \<or> j + length e' \<le> i \<or> i + length e = j + length e'"
  proof (rule unique_last_overlap[OF _ _ _ _ _ _ oe oe'])
    show "e \<noteq> []" using n(2) dispatch_nonempty by simp
    show "last e = CHR ''}''" using n(2) last_dispatch by simp
    show "CHR ''}'' \<notin> set (butlast e)" using n brace_not_in_butlast_dispatch by simp
    show "e' \<noteq> []" using n'(2) dispatch_nonempty by simp
    show "last e' = CHR ''}''" using n'(2) last_dispatch by simp
    show "CHR ''}'' \<notin> set (butlast e')" using n' brace_not_in_butlast_dispatch by simp
  qed
  moreover have "\<not> j + length e' \<le> i"
    using lt by simp
  moreover have "i + length e \<noteq> j + length e'"
  proof
    assume eq: "i + length e = j + length e'"
    from same_end_suffix[OF oe oe' eq] lt obtain p where p: "e = p @ e'" "length p = j - i"
      by auto
    have "dispatch n = p @ dispatch n'"
      using p(1) n(2) n'(2) by simp
    then have q1: "''isEnabled()'' @ CHR ''{'' # (''return!'' @ n @ ''()}'')
        = (p @ ''isEnabled()'') @ CHR ''{'' # (''return!'' @ n' @ ''()}'')"
      by (simp only: dispatch_split append_assoc)
    have q2: "CHR ''{'' \<notin> set (''return!'' @ n @ ''()}'')"
      using brace_open_not_in_ident[OF n(1)] by simp
    have q3: "CHR ''{'' \<notin> set (''return!'' @ n' @ ''()}'')"
      using brace_open_not_in_ident[OF n'(1)] by simp
    have "''isEnabled()'' = p @ ''isEnabled()''"
      using split_last_unique[OF q1 q2 q3] by (rule conjunct1)
    then have "p = []" by simp
    then show False using p(2) lt by simp
  qed
  ultimately show ?thesis by blast
qed

text \<open>Two definitions of the same function in one text lie apart.\<close>

lemma def_apart:
  assumes n: "is_ident n" and d: "def_word n d" and d': "def_word n d'"
    and od: "occurs_at d s i" and od': "occurs_at d' s j" and lt: "i < j"
  shows "i + length d \<le> j"
proof -
  from d obtain ws l where wl: "is_blank ws" "l \<in> {''!0'', ''!1''}" "d = gate_def ws n l"
    unfolding def_word_def by blast
  from d' obtain ws' l' where wl': "is_blank ws'" "l' \<in> {''!0'', ''!1''}" "d' = gate_def ws' n l'"
    unfolding def_word_def by blast
  have "i + length d \<le> j \<or> j + length d' \<le> i \<or> i + length d = j + length d'"
  proof (rule unique_last_overlap[OF _ _ _ _ _ _ od od'])
    show "d \<noteq> []" using wl(3) gate_def_nonempty by simp
    show "last d = CHR ''}''" using wl(3) last_gate_def' by simp
    show "CHR ''}'' \<notin> set (butlast d)" using wl n brace_not_in_butlast_gate_def by simp
    show "d' \<noteq> []" using wl'(3) gate_def_nonempty by simp
    show "last d' = CHR ''}''" using wl'(3) last_gate_def' by simp
    show "CHR ''}'' \<notin> set (butlast d')" using wl' n brace_not_in_butlast_gate_def by simp
  qed
  moreover have "\<not> j + length d' \<le> i"
    using lt by simp
  moreover have "i + length d \<noteq> j + length d'"
  proof
    assume eq: "i + length d = j + length d'"
    from same_end_suffix[OF od od' eq] lt obtain p where p: "d = p @ d'" "length p = j - i"
      by auto
    have "gate_def ws n l = p @ gate_def ws' n l'"
      using p(1) wl(3) wl'(3) by simp
    then have q1: "(''function'' @ ws @ n @ ''()'') @ CHR ''{'' # (''return'' @ l @ ''}'')
        = (p @ ''function'' @ ws' @ n @ ''()'') @ CHR ''{'' # (''return'' @ l' @ ''}'')"
      by (simp only: gate_def_split append_assoc)
    have q2: "CHR ''{'' \<notin> set (''return'' @ l @ ''}'')"
      using wl(2) by auto
    have q3: "CHR ''{'' \<notin> set (''return'' @ l' @ ''}'')"
      using wl'(2) by auto
    have "''function'' @ ws @ n @ ''()'' = p @ ''function'' @ ws' @ n @ ''()''"
      using split_last_unique[OF q1 q2 q3] by (rule conjunct1)
    then have "(''function'' @ ws) @ (n @ ''()'') = (p @ ''function'' @ ws') @ (n @ ''()'')"
      by simp
    then have "''function'' @ ws = p @ ''function'' @ ws'"
      by (simp only: append_same_eq)
    then have r1: "''functio'' @ CHR ''n'' # ws = (p @ ''functio'') @ CHR ''n'' # ws'"
      by simp
    have r2: "CHR ''n'' \<notin> set ws"
      using wl(1) by (rule is_blank_no_char) (simp add: is_space_def cu_def)
    have r3: "CHR ''n'' \<notin> set ws'"
      using wl'(1) by (rule is_blank_no_char) (simp add: is_space_def cu_def)
    have "''functio'' = p @ ''functio''"
      using split_last_unique[OF r1 r2 r3] by (rule conjunct1)
    then have "p = []" by simp
    then show False using p(2) lt by simp
  qed
  ultimately show ?thesis by blast
qed

section \<open>First occurrences, before and after a replacement\<close>

lemma prefix_in_window:
  "k \<le> length (take N D) \<and> (\<exists>rest. drop k (take N D) = w @ rest)
     \<longleftrightarrow> occurs_at w D k \<and> k + length w \<le> N"
proof
  assume a: "k \<le> length (take N D) \<and> (\<exists>rest. drop k (take N D) = w @ rest)"
  then obtain rest where r: "drop k (take N D) = w @ rest" by blast
  have "take N D = take k (take N D) @ w @ rest"
    using r by (metis append_take_drop_id)
  then have "D = take k (take N D) @ w @ (rest @ drop N D)"
    by (metis append_take_drop_id append_assoc)
  moreover have lk: "length (take k (take N D)) = k"
    using a by simp
  ultimately have o: "occurs_at w D k"
    unfolding occurs_at_def by blast
  define L where "L = take N D"
  have "length (drop k L) = length w + length rest"
    using r by (simp add: L_def)
  then have "length L - k = length w + length rest"
    by (simp only: length_drop)
  moreover have "k \<le> length L"
    using a by (simp add: L_def)
  ultimately have "k + length w \<le> length L"
    by arith
  moreover have "length L \<le> N"
    by (simp add: L_def)
  ultimately have "k + length w \<le> N"
    by arith
  then show "occurs_at w D k \<and> k + length w \<le> N"
    using o by simp
next
  assume a: "occurs_at w D k \<and> k + length w \<le> N"
  then obtain u b where D: "D = u @ w @ b" "length u = k"
    unfolding occurs_at_def by blast
  have kn: "k + length w \<le> N"
    using a by simp
  then have "length w \<le> N - k" and "k \<le> N"
    by arith+
  then have "take N D = u @ w @ take (N - k - length w) b"
    using D by simp
  then show "k \<le> length (take N D) \<and> (\<exists>rest. drop k (take N D) = w @ rest)"
    using D(2) by simp
qed

lemma first_at_first_occ:
  "first_at (\<lambda>t. \<exists>w rest. W w \<and> t = w @ rest) (take N D) k = first_occ W D N k"
proof -
  have p: "j \<le> length (take N D) \<and> (\<exists>w rest. W w \<and> drop j (take N D) = w @ rest)
      \<longleftrightarrow> (\<exists>w. W w \<and> occurs_at w D j \<and> j + length w \<le> N)" for j
    using prefix_in_window[of j N D] by blast
  show ?thesis
  proof
    assume f: "first_at (\<lambda>t. \<exists>w rest. W w \<and> t = w @ rest) (take N D) k"
    then have k: "k \<le> length (take N D)"
      and h: "\<exists>w rest. W w \<and> drop k (take N D) = w @ rest"
      and m: "\<forall>j < k. \<not> (\<exists>w rest. W w \<and> drop j (take N D) = w @ rest)"
      by (simp_all add: first_at_def)
    have "\<exists>w. W w \<and> occurs_at w D k \<and> k + length w \<le> N"
      using p[of k] k h by blast
    moreover have "\<forall>j < k. \<not> (\<exists>w. W w \<and> occurs_at w D j \<and> j + length w \<le> N)"
    proof (intro allI impI)
      fix j assume "j < k"
      then have "\<not> (\<exists>w rest. W w \<and> drop j (take N D) = w @ rest)"
        using m by simp
      then show "\<not> (\<exists>w. W w \<and> occurs_at w D j \<and> j + length w \<le> N)"
        using p[of j] by blast
    qed
    ultimately show "first_occ W D N k"
      by (simp add: first_occ_def)
  next
    assume f: "first_occ W D N k"
    then have h: "\<exists>w. W w \<and> occurs_at w D k \<and> k + length w \<le> N"
      and m: "\<forall>j < k. \<not> (\<exists>w. W w \<and> occurs_at w D j \<and> j + length w \<le> N)"
      by (simp_all add: first_occ_def)
    have k: "k \<le> length (take N D) \<and> (\<exists>w rest. W w \<and> drop k (take N D) = w @ rest)"
      using p[of k] h by blast
    moreover have "\<forall>j < k. \<not> (\<exists>w rest. W w \<and> drop j (take N D) = w @ rest)"
    proof (intro allI impI)
      fix j assume j: "j < k"
      then have "j \<le> length (take N D)"
        using k by simp
      moreover have "\<not> (\<exists>w. W w \<and> occurs_at w D j \<and> j + length w \<le> N)"
        using m j by simp
      ultimately show "\<not> (\<exists>w rest. W w \<and> drop j (take N D) = w @ rest)"
        using p[of j] by blast
    qed
    ultimately show "first_at (\<lambda>t. \<exists>w rest. W w \<and> t = w @ rest) (take N D) k"
      by (simp add: first_at_def)
  qed
qed

lemma first_at_first_occ_all:
  "first_at (\<lambda>t. \<exists>w rest. W w \<and> t = w @ rest) s k = first_occ W s (length s) k"
  using first_at_first_occ[of W "length s" s k] by simp

lemma first_occ_bound:
  assumes "length D \<le> N"
  shows "first_occ W D N k = first_occ W D (length D) k"
proof -
  have "occurs_at w D j \<and> j + length w \<le> N \<longleftrightarrow> occurs_at w D j \<and> j + length w \<le> length D" for w j
    using assms occurs_at_length[of w D j] by auto
  then show ?thesis
    unfolding first_occ_def by simp
qed

lemma occ_in_prefix:
  assumes "occurs_at w (x @ r) j" and "j + length w \<le> length x"
  shows "occurs_at w (x @ r') j"
proof -
  have "take (length w) (drop j (x @ r)) = take (length w) (drop j x)"
    using assms(2) by simp
  moreover have "take (length w) (drop j (x @ r')) = take (length w) (drop j x)"
    using assms(2) by simp
  ultimately show ?thesis
    using assms unfolding occurs_at_take_drop by simp
qed

lemma occ_in_suffix:
  assumes "occurs_at w (x @ g @ post) j" and "length x + length g \<le> j"
  shows "occurs_at w (x @ g' @ post) (j - length g + length g')"
proof -
  define d where "d = j - (length x + length g)"
  have j: "j = length x + length g + d"
    using assms(2) by (simp add: d_def)
  have j': "j - length g + length g' = length x + length g' + d"
    using j by simp
  have a: "drop j (x @ g @ post) = drop d post"
    unfolding j by simp
  have b: "drop (j - length g + length g') (x @ g' @ post) = drop d post"
    unfolding j' by simp
  have t: "take (length w) (drop j (x @ g @ post)) = w"
    and l: "j + length w \<le> length (x @ g @ post)"
    using assms(1) by (simp_all only: occurs_at_take_drop)
  have t': "take (length w) (drop d post) = w"
    using t by (simp only: a)
  have "d + length w \<le> length post"
    using l unfolding j by simp
  then have c1: "j - length g + length g' + length w \<le> length (x @ g' @ post)"
    unfolding j' by simp
  have c2: "take (length w) (drop (j - length g + length g') (x @ g' @ post)) = w"
    using t' by (simp only: b)
  show ?thesis
    using c1 c2 by (simp only: occurs_at_take_drop)
qed

text \<open>
  A piece \<open>g\<close> of a text is replaced by a piece \<open>g'\<close> that is not longer. If the words of a
  class never touch \<open>g\<close> or \<open>g'\<close>, the first of them that fits in the first \<open>N\<close> characters
  is the same word on both sides, at the same place or moved left with the rest.
\<close>

lemma first_occ_transfer:
  assumes len: "length g' \<le> length g"
    and avoid: "\<And>u j. W u \<Longrightarrow> occurs_at u (x @ g @ post) j
                  \<Longrightarrow> j + length u \<le> length x \<or> length x + length g \<le> j"
    and avoid': "\<And>u j. W u \<Longrightarrow> occurs_at u (x @ g' @ post) j
                  \<Longrightarrow> j + length u \<le> length x \<or> length x + length g' \<le> j"
    and fits: "\<And>u j. W u \<Longrightarrow> occurs_at u (x @ g @ post) j \<Longrightarrow> j < k \<Longrightarrow> j + length u \<le> N"
    and w: "W w" "occurs_at w (x @ g @ post) k" "k + length w \<le> N"
    and least: "\<And>u j. W u \<Longrightarrow> occurs_at u (x @ g @ post) j \<Longrightarrow> j + length u \<le> N \<Longrightarrow> k \<le> j"
  defines "k' \<equiv> (if k + length w \<le> length x then k else k - length g + length g')"
  shows "occurs_at w (x @ g' @ post) k' \<and> k' + length w \<le> N
     \<and> (\<forall>u j. W u \<and> occurs_at u (x @ g' @ post) j \<and> j + length u \<le> N \<longrightarrow> k' \<le> j)"
proof (cases "k + length w \<le> length x")
  case True
  then have k': "k' = k" by (simp add: k'_def)
  have o: "occurs_at w (x @ g' @ post) k"
    using w(2) True by (rule occ_in_prefix)
  have m: "k \<le> j" if u: "W u" "occurs_at u (x @ g' @ post) j" "j + length u \<le> N" for u j
  proof (rule ccontr)
    assume "\<not> k \<le> j"
    then have jk: "j < k" by simp
    from avoid'[OF u(1,2)] have jx: "j + length u \<le> length x"
      using jk True by arith
    from u(2) jx have "occurs_at u (x @ g @ post) j"
      by (rule occ_in_prefix)
    from u(1) this u(3) have "k \<le> j"
      by (rule least)
    then show False using jk by simp
  qed
  show ?thesis
    unfolding k' using o w(3) m by blast
next
  case False
  then have kg: "length x + length g \<le> k"
    using avoid[OF w(1,2)] by blast
  have k': "k' = k - length g + length g'"
    using False by (simp add: k'_def)
  have o: "occurs_at w (x @ g' @ post) k'"
    unfolding k' using w(2) kg by (rule occ_in_suffix)
  have b: "k' + length w \<le> N"
    unfolding k' using w(3) len kg by arith
  have m: "k' \<le> j" if u: "W u" "occurs_at u (x @ g' @ post) j" "j + length u \<le> N" for u j
  proof (rule ccontr)
    assume "\<not> k' \<le> j"
    then have jk: "j < k'" by simp
    from avoid'[OF u(1,2)] show False
    proof
      assume jx: "j + length u \<le> length x"
      from u(2) jx have "occurs_at u (x @ g @ post) j"
        by (rule occ_in_prefix)
      from u(1) this u(3) have "k \<le> j"
        by (rule least)
      then show False
        using jk len kg unfolding k' by arith
    next
      assume a: "length x + length g' \<le> j"
      define j2 where "j2 = j - length g' + length g"
      have o2: "occurs_at u (x @ g @ post) j2"
        unfolding j2_def using u(2) a by (rule occ_in_suffix)
      have lt: "j2 < k"
        using jk a kg unfolding j2_def k' by arith
      have "j2 + length u \<le> N"
        using u(1) o2 lt by (rule fits)
      with u(1) o2 have "k \<le> j2"
        by (rule least)
      then show False using lt by simp
    qed
  qed
  show ?thesis
    using o b m by blast
qed

lemma first_occ_transfer':
  assumes len: "length g' \<le> length g"
    and avoid: "\<And>u j. W u \<Longrightarrow> occurs_at u (x @ g @ post) j
                  \<Longrightarrow> j + length u \<le> length x \<or> length x + length g \<le> j"
    and avoid': "\<And>u j. W u \<Longrightarrow> occurs_at u (x @ g' @ post) j
                  \<Longrightarrow> j + length u \<le> length x \<or> length x + length g' \<le> j"
    and fits: "\<And>u j. W u \<Longrightarrow> occurs_at u (x @ g @ post) j \<Longrightarrow> j < k \<Longrightarrow> j + length u \<le> N"
    and w: "W w" "occurs_at w (x @ g @ post) k" "k + length w \<le> N"
    and first: "first_occ W (x @ g @ post) N k"
  shows "\<exists>k'. k' = (if k + length w \<le> length x then k else k - length g + length g')
     \<and> occurs_at w (x @ g' @ post) k' \<and> k' + length w \<le> N \<and> first_occ W (x @ g' @ post) N k'"
proof -
  have least: "k \<le> j" if "W u" "occurs_at u (x @ g @ post) j" "j + length u \<le> N" for u j
  proof (rule ccontr)
    assume "\<not> k \<le> j"
    then have "j < k" by simp
    moreover have "\<exists>w. W w \<and> occurs_at w (x @ g @ post) j \<and> j + length w \<le> N"
      using that by (intro exI[of _ u]) simp
    ultimately show False
      using first unfolding first_occ_def by simp
  qed
  define k' where "k' = (if k + length w \<le> length x then k else k - length g + length g')"
  have r: "occurs_at w (x @ g' @ post) k' \<and> k' + length w \<le> N
     \<and> (\<forall>u j. W u \<and> occurs_at u (x @ g' @ post) j \<and> j + length u \<le> N \<longrightarrow> k' \<le> j)"
    unfolding k'_def using len avoid avoid' fits w least by (rule first_occ_transfer)
  have "first_occ W (x @ g' @ post) N k'"
    unfolding first_occ_def
  proof (intro conjI allI impI)
    show "\<exists>w. W w \<and> occurs_at w (x @ g' @ post) k' \<and> k' + length w \<le> N"
      using r w(1) by (intro exI[of _ w]) simp
  next
    fix j assume jk: "j < k'"
    show "\<not> (\<exists>w. W w \<and> occurs_at w (x @ g' @ post) j \<and> j + length w \<le> N)"
    proof
      assume "\<exists>w. W w \<and> occurs_at w (x @ g' @ post) j \<and> j + length w \<le> N"
      then obtain u where "W u \<and> occurs_at u (x @ g' @ post) j \<and> j + length u \<le> N" ..
      then have "k' \<le> j"
        using r by simp
      then show False using jk by simp
    qed
  qed
  then show ?thesis
    using r k'_def by simp
qed

section \<open>Rewriting the gate definition keeps the gate\<close>

lemma marker_at_words: "marker_at t \<longleftrightarrow> (\<exists>w rest. marker_word w \<and> t = w @ rest)"
proof
  assume "marker_at t"
  then obtain kw ws idn rest where "t = kw @ ws @ idn @ marker_tail @ rest"
    "kw \<in> {''var'', ''let'', ''const''}" "is_blank ws" "is_ident idn"
    unfolding marker_at_def by blast
  then have "marker_word (kw @ ws @ idn @ marker_tail) \<and> t = (kw @ ws @ idn @ marker_tail) @ rest"
    unfolding marker_word_def by auto
  then show "\<exists>w rest. marker_word w \<and> t = w @ rest" by blast
next
  assume "\<exists>w rest. marker_word w \<and> t = w @ rest"
  then obtain w rest where w: "marker_word w" "t = w @ rest" by blast
  from w(1) obtain kw ws idn where k: "w = kw @ ws @ idn @ marker_tail"
    "kw \<in> {''var'', ''let'', ''const''}" "is_blank ws" "is_ident idn"
    unfolding marker_word_def by blast
  have "t = kw @ ws @ idn @ marker_tail @ rest"
    using w(2) k(1) by simp
  then show "marker_at t"
    unfolding marker_at_def using k(2,3,4) by blast
qed

lemma dispatch_at_words: "(\<exists>n. dispatch_at n t) \<longleftrightarrow> (\<exists>w rest. dispatch_word w \<and> t = w @ rest)"
  unfolding dispatch_at_def dispatch_word_def by blast

lemma def_at_words:
  "def_at n ''!0'' t \<or> def_at n ''!1'' t \<longleftrightarrow> (\<exists>w rest. def_word n w \<and> t = w @ rest)"
  unfolding def_at_def def_word_def by blast

lemma first_at_marker_occ: "first_at marker_at s i = first_occ marker_word s (length s) i"
proof -
  have "first_at marker_at s i = first_at (\<lambda>t. \<exists>w rest. marker_word w \<and> t = w @ rest) s i"
    by (rule first_at_cong) (rule marker_at_words)
  then show ?thesis
    by (simp only: first_at_first_occ_all)
qed

lemma first_at_dispatch_occ:
  "first_at (\<lambda>t. \<exists>n. dispatch_at n t) (take N D) k = first_occ dispatch_word D N k"
proof -
  have "first_at (\<lambda>t. \<exists>n. dispatch_at n t) (take N D) k
      = first_at (\<lambda>t. \<exists>w rest. dispatch_word w \<and> t = w @ rest) (take N D) k"
    by (rule first_at_cong) (rule dispatch_at_words)
  then show ?thesis
    by (simp only: first_at_first_occ)
qed

lemma first_at_def_occ:
  "first_at (\<lambda>t. def_at n ''!0'' t \<or> def_at n ''!1'' t) s k = first_occ (def_word n) s (length s) k"
proof -
  have "first_at (\<lambda>t. def_at n ''!0'' t \<or> def_at n ''!1'' t) s k
      = first_at (\<lambda>t. \<exists>w rest. def_word n w \<and> t = w @ rest) s k"
    by (rule first_at_cong) (rule def_at_words)
  then show ?thesis
    by (simp only: first_at_first_occ_all)
qed

lemma marker_avoids_def:
  assumes "marker_word mk" "def_word n g" "is_ident n" "occurs_at mk (x @ g @ post) j"
  shows "j + length mk \<le> length x \<or> length x + length g \<le> j"
proof -
  from assms(2) obtain ws l where g: "is_blank ws" "l \<in> {''!0'', ''!1''}" "g = gate_def ws n l"
    unfolding def_word_def by blast
  from assms(4) obtain a b where a: "x @ g @ post = a @ mk @ b" "length a = j"
    unfolding occurs_at_def by blast
  have "a @ mk @ b = x @ gate_def ws n l @ post"
    using a(1) g(3) by simp
  from marker_outside_definition[OF assms(1) g(1) assms(3) g(2) this]
  show ?thesis using a(2) g(3) by simp
qed

lemma dispatch_avoids_def:
  assumes "dispatch_word e" "def_word n g" "is_ident n" "occurs_at e (x @ g @ post) j"
  shows "j + length e \<le> length x \<or> length x + length g \<le> j"
proof -
  have "occurs_at g (x @ g @ post) (length x)"
    unfolding occurs_at_def by blast
  from dispatch_apart_def[OF assms(1,2,3,4) this] show ?thesis .
qed

lemma def_word_length:
  assumes "def_word n g" "def_word n g'"
  shows "length g' \<le> length g \<longleftrightarrow>
     (\<exists>ws l ws' l'. g = gate_def ws n l \<and> g' = gate_def ws' n l' \<and> l \<in> {''!0'', ''!1''}
        \<and> l' \<in> {''!0'', ''!1''} \<and> length ws' \<le> length ws)"
proof -
  from assms(1) obtain ws l where g: "l \<in> {''!0'', ''!1''}" "g = gate_def ws n l"
    unfolding def_word_def by blast
  from assms(2) obtain ws' l' where g': "l' \<in> {''!0'', ''!1''}" "g' = gate_def ws' n l'"
    unfolding def_word_def by blast
  have ll: "length l = 2" "length l' = 2"
    using g(1) g'(1) by auto
  show ?thesis
  proof
    assume "length g' \<le> length g"
    then have "length ws' \<le> length ws"
      using g(2) g'(2) ll by (simp add: gate_def_def)
    then show "\<exists>ws l ws' l'. g = gate_def ws n l \<and> g' = gate_def ws' n l' \<and> l \<in> {''!0'', ''!1''}
        \<and> l' \<in> {''!0'', ''!1''} \<and> length ws' \<le> length ws"
      using g g' by blast
  next
    assume "\<exists>ws l ws' l'. g = gate_def ws n l \<and> g' = gate_def ws' n l' \<and> l \<in> {''!0'', ''!1''}
        \<and> l' \<in> {''!0'', ''!1''} \<and> length ws' \<le> length ws"
    then obtain ws l ws' l' where "g = gate_def ws n l" "g' = gate_def ws' n l'"
      "l \<in> {''!0'', ''!1''}" "l' \<in> {''!0'', ''!1''}" "length ws' \<le> length ws"
      by blast
    then show "length g' \<le> length g"
      by (auto simp: gate_def_def)
  qed
qed

text \<open>The first marker stays the first marker.\<close>

lemma swap_marker:
  assumes n: "is_ident n" and g: "def_word n g" and g': "def_word n g'"
    and len: "length g' \<le> length g"
    and first: "first_at marker_at (pre @ g @ post) i"
  shows "\<exists>mk. marker_word mk \<and> occurs_at mk (pre @ g @ post) i
     \<and> first_at marker_at (pre @ g' @ post)
          (if i + length mk \<le> length pre then i else i - length g + length g')"
proof -
  define N where "N = length (pre @ g @ post)"
  have f: "first_occ marker_word (pre @ g @ post) N i"
    using first unfolding first_at_marker_occ N_def .
  then obtain mk where mk: "marker_word mk" "occurs_at mk (pre @ g @ post) i" "i + length mk \<le> N"
    unfolding first_occ_def by blast
  have "\<exists>k'. k' = (if i + length mk \<le> length pre then i else i - length g + length g')
     \<and> occurs_at mk (pre @ g' @ post) k' \<and> k' + length mk \<le> N
     \<and> first_occ marker_word (pre @ g' @ post) N k'"
  proof (rule first_occ_transfer'[OF len _ _ _ mk f])
    show "j + length u \<le> length pre \<or> length pre + length g \<le> j"
      if "marker_word u" "occurs_at u (pre @ g @ post) j" for u j
      using that(1) g n that(2) by (rule marker_avoids_def)
    show "j + length u \<le> length pre \<or> length pre + length g' \<le> j"
      if "marker_word u" "occurs_at u (pre @ g' @ post) j" for u j
      using that(1) g' n that(2) by (rule marker_avoids_def)
    show "j + length u \<le> N" if "marker_word u" "occurs_at u (pre @ g @ post) j" "j < i" for u j
      using occurs_at_length[OF that(2)] by (simp add: N_def)
  qed
  then have "first_occ marker_word (pre @ g' @ post) N
      (if i + length mk \<le> length pre then i else i - length g + length g')"
    by simp
  moreover have "length (pre @ g' @ post) \<le> N"
    using len by (simp add: N_def)
  ultimately have "first_occ marker_word (pre @ g' @ post) (length (pre @ g' @ post))
      (if i + length mk \<le> length pre then i else i - length g + length g')"
    using first_occ_bound by blast
  then have "first_at marker_at (pre @ g' @ post)
      (if i + length mk \<le> length pre then i else i - length g + length g')"
    unfolding first_at_marker_occ .
  then show ?thesis
    using mk by blast
qed

text \<open>The first dispatch call in the window stays the first one, with the same name.\<close>

lemma swap_dispatch:
  assumes n: "is_ident n" and g: "def_word n g" and g': "def_word n g'"
    and len: "length g' \<le> length g"
    and first: "first_at (\<lambda>t. \<exists>n. dispatch_at n t) (take N (x @ g @ post)) k"
    and d: "dispatch_at name (drop k (take N (x @ g @ post)))"
  shows "\<exists>k'. first_at (\<lambda>t. \<exists>n. dispatch_at n t) (take N (x @ g' @ post)) k'
     \<and> dispatch_at name (drop k' (take N (x @ g' @ post)))"
proof -
  define w where "w = dispatch name"
  have name: "is_ident name"
    using d by (simp add: dispatch_at_def)
  have W: "dispatch_word w"
    unfolding dispatch_word_def w_def using name by blast
  have f: "first_occ dispatch_word (x @ g @ post) N k"
    using first unfolding first_at_dispatch_occ .
  have kl: "k \<le> length (take N (x @ g @ post))"
    using first unfolding first_at_def by (rule conjunct1)
  have "\<exists>rest. drop k (take N (x @ g @ post)) = w @ rest"
    using d by (simp add: dispatch_at_def w_def)
  with kl have "k \<le> length (take N (x @ g @ post))
      \<and> (\<exists>rest. drop k (take N (x @ g @ post)) = w @ rest)"
    by (rule conjI)
  then have o: "occurs_at w (x @ g @ post) k \<and> k + length w \<le> N"
    unfolding prefix_in_window .
  then have o1: "occurs_at w (x @ g @ post) k" and o2: "k + length w \<le> N"
    by simp_all
  have "\<exists>k'. k' = (if k + length w \<le> length x then k else k - length g + length g')
     \<and> occurs_at w (x @ g' @ post) k' \<and> k' + length w \<le> N
     \<and> first_occ dispatch_word (x @ g' @ post) N k'"
  proof (rule first_occ_transfer'[OF len _ _ _ W o1 o2 f])
    show "j + length u \<le> length x \<or> length x + length g \<le> j"
      if "dispatch_word u" "occurs_at u (x @ g @ post) j" for u j
      using that(1) g n that(2) by (rule dispatch_avoids_def)
    show "j + length u \<le> length x \<or> length x + length g' \<le> j"
      if "dispatch_word u" "occurs_at u (x @ g' @ post) j" for u j
      using that(1) g' n that(2) by (rule dispatch_avoids_def)
    show "j + length u \<le> N" if "dispatch_word u" "occurs_at u (x @ g @ post) j" "j < k" for u j
    proof -
      have "j + length u \<le> k"
        using that(1) W that(2) o1 that(3) by (rule dispatch_apart)
      then show ?thesis using o2 by arith
    qed
  qed
  then obtain k' where k': "occurs_at w (x @ g' @ post) k' \<and> k' + length w \<le> N"
    and f': "first_occ dispatch_word (x @ g' @ post) N k'"
    by blast
  have a: "first_at (\<lambda>t. \<exists>n. dispatch_at n t) (take N (x @ g' @ post)) k'"
    using f' unfolding first_at_dispatch_occ .
  have "k' \<le> length (take N (x @ g' @ post))
      \<and> (\<exists>rest. drop k' (take N (x @ g' @ post)) = w @ rest)"
    using k' unfolding prefix_in_window .
  then have "dispatch_at name (drop k' (take N (x @ g' @ post)))"
    using name by (simp add: dispatch_at_def w_def)
  with a show ?thesis by blast
qed

text \<open>So the gate that is found is the same.\<close>

lemma swap_gate:
  assumes n: "is_ident n" and g: "def_word n g" and g': "def_word n g'"
    and len: "length g' \<le> length g"
    and gate: "findTodoWriteGate (pre @ g @ post) = Some G"
  shows "findTodoWriteGate (pre @ g' @ post) = Some G"
proof -
  from gate obtain i k name where i: "first_at marker_at (pre @ g @ post) i"
    and k: "first_at (\<lambda>t. \<exists>n. dispatch_at n t) (take 8000 (drop i (pre @ g @ post))) k"
    and nm: "dispatch_at name (drop k (take 8000 (drop i (pre @ g @ post))))"
    and G: "G = Gate (Some name)"
    unfolding findTodoWriteGate_iff by blast
  from swap_marker[OF n g g' len i] obtain mk where mk: "marker_word mk"
    "occurs_at mk (pre @ g @ post) i"
    and i': "first_at marker_at (pre @ g' @ post)
          (if i + length mk \<le> length pre then i else i - length g + length g')"
    by blast
  have "\<exists>i' k'. first_at marker_at (pre @ g' @ post) i'
      \<and> first_at (\<lambda>t. \<exists>n. dispatch_at n t) (take 8000 (drop i' (pre @ g' @ post))) k'
      \<and> dispatch_at name (drop k' (take 8000 (drop i' (pre @ g' @ post))))"
  proof (cases "i + length mk \<le> length pre")
    case True
    then have ip: "i \<le> length pre" by arith
    have m: "first_at marker_at (pre @ g' @ post) i"
      using i' True by simp
    have d1: "drop i (pre @ g @ post) = drop i pre @ g @ post"
      using ip by simp
    have d2: "drop i (pre @ g' @ post) = drop i pre @ g' @ post"
      using ip by simp
    have "\<exists>k'. first_at (\<lambda>t. \<exists>n. dispatch_at n t) (take 8000 (drop i pre @ g' @ post)) k'
       \<and> dispatch_at name (drop k' (take 8000 (drop i pre @ g' @ post)))"
      using n g g' len k[unfolded d1] nm[unfolded d1] by (rule swap_dispatch)
    then have "\<exists>k'. first_at (\<lambda>t. \<exists>n. dispatch_at n t)
           (take 8000 (drop i (pre @ g' @ post))) k'
       \<and> dispatch_at name (drop k' (take 8000 (drop i (pre @ g' @ post))))"
      unfolding d2 .
    with m show ?thesis
      by blast
  next
    case False
    have "i + length mk \<le> length pre \<or> length pre + length g \<le> i"
      using mk(1) g n mk(2) by (rule marker_avoids_def)
    then have ge: "length pre + length g \<le> i"
      using False by simp
    define e where "e = i - (length pre + length g)"
    have ie: "i = length pre + length g + e"
      using ge by (simp add: e_def)
    have ie': "i - length g + length g' = length pre + length g' + e"
      using ie by simp
    have m: "first_at marker_at (pre @ g' @ post) (length pre + length g' + e)"
      using i' False ie' by simp
    have d1: "drop i (pre @ g @ post) = drop e post"
      unfolding ie by simp
    have d2: "drop (length pre + length g' + e) (pre @ g' @ post) = drop e post"
      by simp
    have "first_at (\<lambda>t. \<exists>n. dispatch_at n t)
        (take 8000 (drop (length pre + length g' + e) (pre @ g' @ post))) k
      \<and> dispatch_at name (drop k (take 8000 (drop (length pre + length g' + e) (pre @ g' @ post))))"
      unfolding d2 using k nm unfolding d1 by (rule conjI)
    with m show ?thesis
      by blast
  qed
  then show ?thesis
    unfolding findTodoWriteGate_iff using G by blast
qed

text \<open>The rewritten definition is the first definition of the rewritten content.\<close>

lemma swap_def:
  assumes n: "is_ident n" and g: "def_word n g" and g': "def_word n g'"
    and first: "first_at (\<lambda>t. def_at n ''!0'' t \<or> def_at n ''!1'' t) (pre @ g @ post) (length pre)"
  shows "first_at (\<lambda>t. def_at n ''!0'' t \<or> def_at n ''!1'' t) (pre @ g' @ post) (length pre)"
proof -
  have f: "first_occ (def_word n) (pre @ g @ post) (length (pre @ g @ post)) (length pre)"
    using first unfolding first_at_def_occ .
  have o': "occurs_at g' (pre @ g' @ post) (length pre)"
    unfolding occurs_at_def by blast
  have "first_occ (def_word n) (pre @ g' @ post) (length (pre @ g' @ post)) (length pre)"
    unfolding first_occ_def
  proof (intro conjI allI impI)
    show "\<exists>w. def_word n w \<and> occurs_at w (pre @ g' @ post) (length pre)
        \<and> length pre + length w \<le> length (pre @ g' @ post)"
      using g' o' by (intro exI[of _ g']) simp
  next
    fix j assume jk: "j < length pre"
    show "\<not> (\<exists>w. def_word n w \<and> occurs_at w (pre @ g' @ post) j
        \<and> j + length w \<le> length (pre @ g' @ post))"
    proof
      assume "\<exists>w. def_word n w \<and> occurs_at w (pre @ g' @ post) j
        \<and> j + length w \<le> length (pre @ g' @ post)"
      then obtain u where u: "def_word n u" "occurs_at u (pre @ g' @ post) j" by blast
      have ju: "j + length u \<le> length pre"
        using n u(1) g' u(2) o' jk by (rule def_apart)
      from u(2) ju have ou: "occurs_at u (pre @ g @ post) j"
        by (rule occ_in_prefix)
      have "j + length u \<le> length (pre @ g @ post)"
        using ju by simp
      with u(1) ou have "\<exists>w. def_word n w \<and> occurs_at w (pre @ g @ post) j
          \<and> j + length w \<le> length (pre @ g @ post)"
        by blast
      then show False
        using f jk unfolding first_occ_def by blast
    qed
  qed
  then show ?thesis
    unfolding first_at_def_occ .
qed

section \<open>Replacement templates that are copied as they stand\<close>

lemma cu_eq_char: "cu d = cu c \<Longrightarrow> d = c"
  by (simp add: cu_def)

lemma digit_val_one: "is_digit d \<Longrightarrow> digit_val d = 1 \<Longrightarrow> d = CHR ''1''"
  by (rule cu_eq_char) (simp add: is_digit_def digit_val_def cu_def)

lemma digit_val_zero: "is_digit d \<Longrightarrow> digit_val d = 0 \<Longrightarrow> d = CHR ''0''"
  by (rule cu_eq_char) (simp add: is_digit_def digit_val_def cu_def)

lemma digit_not_dollar: "is_digit d \<Longrightarrow> d \<noteq> CHR ''$''"
  by (auto simp: is_digit_def cu_def)

lemma two_digits_one:
  assumes "is_digit d" "is_digit e" "10 * digit_val d + digit_val e \<le> 1"
    "1 \<le> 10 * digit_val d + digit_val e"
  shows "d = CHR ''0'' \<and> e = CHR ''1''"
proof -
  have "digit_val d = 0" "digit_val e = 1"
    using assms(3,4) by arith+
  then show ?thesis
    using assms(1,2) digit_val_zero digit_val_one by blast
qed

lemma dollar_safe_tail: "dollar_safe (c # t) \<Longrightarrow> dollar_safe t"
  by (cases t) (auto split: if_splits)

lemma subst_plain:
  "c \<noteq> CHR ''$'' \<Longrightarrow> GetSubstitution m str pos caps (c # t) = c # GetSubstitution m str pos caps t"
  by (subst GetSubstitution.simps) simp

lemma subst_dollar_end: "GetSubstitution m str pos caps [CHR ''$''] = [CHR ''$'']"
  by (subst GetSubstitution.simps) simp

lemma subst_dollar_other:
  assumes "d \<noteq> CHR ''$''" "d \<noteq> CHR ''&''" "d \<noteq> CHR 0x60" "d \<noteq> CHR 0x27" "\<not> is_digit d"
  shows "GetSubstitution m str pos caps (CHR ''$'' # d # t)
       = CHR ''$'' # GetSubstitution m str pos caps (d # t)"
  using assms by (subst GetSubstitution.simps) simp

lemma subst_dollar_digit_end:
  assumes "d \<noteq> CHR ''$''" "d \<noteq> CHR ''&''" "d \<noteq> CHR 0x60" "d \<noteq> CHR 0x27" "is_digit d"
    and "(Suc 0 \<le> digit_val d \<and> digit_val d \<le> length caps) = False"
  shows "GetSubstitution m str pos caps [CHR ''$'', d] = [CHR ''$'', d]"
  using assms(1-5) by (subst GetSubstitution.simps) (simp add: assms(6))

lemma subst_dollar_two:
  assumes "d \<noteq> CHR ''$''" "d \<noteq> CHR ''&''" "d \<noteq> CHR 0x60" "d \<noteq> CHR 0x27" "is_digit d"
    and "is_digit e" "10 * digit_val d + digit_val e \<le> length caps"
    and "(Suc 0 \<le> 10 * digit_val d + digit_val e) = False"
  shows "GetSubstitution m str pos caps (CHR ''$'' # d # e # t)
       = CHR ''$'' # d # e # GetSubstitution m str pos caps t"
  using assms(1-7) by (subst GetSubstitution.simps) (simp add: assms(8))

lemma subst_dollar_one:
  assumes "d \<noteq> CHR ''$''" "d \<noteq> CHR ''&''" "d \<noteq> CHR 0x60" "d \<noteq> CHR 0x27" "is_digit d"
    and "(is_digit e \<and> 10 * digit_val d + digit_val e \<le> length caps) = False"
    and "(Suc 0 \<le> digit_val d \<and> digit_val d \<le> length caps) = False"
  shows "GetSubstitution m str pos caps (CHR ''$'' # d # e # t)
       = CHR ''$'' # d # GetSubstitution m str pos caps (e # t)"
  using assms(1-5) by (subst GetSubstitution.simps) (simp add: assms(6,7))

lemma subst_safe:
  assumes "length caps = 1"
  shows "dollar_safe t \<Longrightarrow> CHR ''&'' \<notin> set t \<Longrightarrow> CHR 0x60 \<notin> set t \<Longrightarrow> CHR 0x27 \<notin> set t
     \<Longrightarrow> GetSubstitution m str pos caps t = t"
proof (induction t rule: length_induct)
  case (1 t)
  note IH = 1(1)[rule_format]
  show ?case
  proof (cases t)
    case Nil
    then show ?thesis by (simp add: GetSubstitution.simps)
  next
    case (Cons c t1)
    have s1: "dollar_safe t1"
      using 1(2) Cons dollar_safe_tail by blast
    have r1: "GetSubstitution m str pos caps t1 = t1"
      using IH[of t1] s1 1(3,4,5) Cons by simp
    show ?thesis
    proof (cases "c = CHR ''$''")
      case False
      then show ?thesis
        using Cons r1 by (simp add: subst_plain)
    next
      case True
      show ?thesis
      proof (cases t1)
        case Nil
        then show ?thesis
          using Cons True by (simp add: subst_dollar_end)
      next
        case c2: (Cons d t')
        have d: "d \<noteq> CHR ''$''" "d \<noteq> CHR ''&''" "d \<noteq> CHR 0x60" "d \<noteq> CHR 0x27"
          and d1: "d \<noteq> CHR ''1''"
          using 1(2,3,4,5) Cons True c2 by auto
        have s2: "dollar_safe t'"
          using s1 c2 dollar_safe_tail by blast
        have r2: "GetSubstitution m str pos caps t' = t'"
          using IH[of t'] s2 1(3,4,5) Cons c2 by simp
        show ?thesis
        proof (cases "is_digit d")
          case False
          have "GetSubstitution m str pos caps (CHR ''$'' # d # t')
              = CHR ''$'' # GetSubstitution m str pos caps (d # t')"
            using d False by (rule subst_dollar_other)
          then show ?thesis
            using Cons True c2 r1 by simp
        next
          case dig: True
          have nd: "(Suc 0 \<le> digit_val d \<and> digit_val d \<le> length caps) = False"
          proof -
            have "\<not> (Suc 0 \<le> digit_val d \<and> digit_val d \<le> length caps)"
            proof
              assume "Suc 0 \<le> digit_val d \<and> digit_val d \<le> length caps"
              then have "digit_val d = 1"
                using assms by arith
              then show False
                using dig d1 digit_val_one by blast
            qed
            then show ?thesis by simp
          qed
          show ?thesis
          proof (cases t')
            case Nil
            have "GetSubstitution m str pos caps [CHR ''$'', d] = [CHR ''$'', d]"
              using d dig nd by (rule subst_dollar_digit_end)
            then show ?thesis
              using Cons True c2 Nil by simp
          next
            case c3: (Cons e t'')
            show ?thesis
            proof (cases "is_digit e \<and> 10 * digit_val d + digit_val e \<le> length caps")
              case False
              then have f: "(is_digit e \<and> 10 * digit_val d + digit_val e \<le> length caps) = False"
                by simp
              have "GetSubstitution m str pos caps (CHR ''$'' # d # e # t'')
                  = CHR ''$'' # d # GetSubstitution m str pos caps (e # t'')"
                using d dig f nd by (rule subst_dollar_one)
              then show ?thesis
                using Cons True c2 c3 r2 by simp
            next
              case two: True
              have e1: "\<not> (d = CHR ''0'' \<and> e = CHR ''1'')"
                using 1(2) Cons True c2 c3 by simp
              have n1: "(Suc 0 \<le> 10 * digit_val d + digit_val e) = False"
                using two_digits_one[of d e] dig two e1 assms by auto
              have s3: "dollar_safe t''"
                using s2 c3 dollar_safe_tail by blast
              have r3: "GetSubstitution m str pos caps t'' = t''"
                using IH[of t''] s3 1(3,4,5) Cons c2 c3 by simp
              have "GetSubstitution m str pos caps (CHR ''$'' # d # e # t'')
                  = CHR ''$'' # d # e # GetSubstitution m str pos caps t''"
                using d dig two[THEN conjunct1] two[THEN conjunct2] n1 by (rule subst_dollar_two)
              then show ?thesis
                using Cons True c2 c3 r3 by simp
            qed
          qed
        qed
      qed
    qed
  qed
qed

lemma dollar_safe_no_dollar: "CHR ''$'' \<notin> set t \<Longrightarrow> dollar_safe t"
  by (induction t) auto

lemma dollar_safe_append_plain:
  "CHR ''$'' \<notin> set a \<Longrightarrow> dollar_safe (a @ t) = dollar_safe t"
  by (induction a) auto

lemma dollar_safe_append_paren:
  assumes "CHR ''$'' \<notin> set b"
  shows "dollar_safe n \<Longrightarrow> dollar_safe (n @ CHR ''('' # b)"
proof (induction n)
  case Nil
  have "dollar_safe (CHR ''('' # b)"
    using assms by (simp add: dollar_safe_no_dollar)
  then show ?case by simp
next
  case (Cons c t)
  have st: "dollar_safe t"
    using Cons.prems by (rule dollar_safe_tail)
  then have r: "dollar_safe (t @ CHR ''('' # b)"
    by (rule Cons.IH)
  show ?case
  proof (cases "c = CHR ''$''")
    case False
    then show ?thesis using r by simp
  next
    case True
    show ?thesis
    proof (cases t)
      case Nil
      then show ?thesis using True r by simp
    next
      case c2: (Cons d t')
      have d: "d \<noteq> CHR ''$''" "d \<noteq> CHR ''1''"
        using Cons.prems True c2 by simp_all
      show ?thesis
      proof (cases t')
        case Nil
        then show ?thesis using True c2 d r by simp
      next
        case c3: (Cons e t'')
        have "\<not> (d = CHR ''0'' \<and> e = CHR ''1'')"
          using Cons.prems True c2 c3 by simp
        then show ?thesis using True c2 c3 d r by simp
      qed
    qed
  qed
qed

lemma template_copied:
  assumes "is_ident n" "dollar_safe n" "l \<in> {''!0'', ''!1''}"
  shows "GetSubstitution m str pos [cap] (''function '' @ n @ ''(){return'' @ l @ ''}'')
       = gate_def '' '' n l"
proof -
  define t where "t = ''function '' @ n @ ''(){return'' @ l @ ''}''"
  have id: "\<And>c. c \<in> set n \<Longrightarrow> id_part c"
    using assms(1) is_ident_chars by blast
  have np: "\<not> id_part (CHR ''&'')" "\<not> id_part (CHR 0x60)" "\<not> id_part (CHR 0x27)"
    by (simp_all add: id_part_def is_word_def is_digit_def cu_def)
  have n3: "CHR ''&'' \<notin> set n" "CHR 0x60 \<notin> set n" "CHR 0x27 \<notin> set n"
    using id np by blast+
  have "CHR ''$'' \<notin> set (''){return'' @ l @ ''}'')"
    using assms(3) by auto
  then have "dollar_safe (n @ CHR ''('' # (''){return'' @ l @ ''}''))"
    using assms(2) by (rule dollar_safe_append_paren)
  then have "dollar_safe (''function '' @ n @ CHR ''('' # (''){return'' @ l @ ''}''))"
    by (subst dollar_safe_append_plain) simp_all
  then have a: "dollar_safe t"
    by (simp add: t_def)
  have b: "CHR ''&'' \<notin> set t" "CHR 0x60 \<notin> set t" "CHR 0x27 \<notin> set t"
    using n3 assms(3) by (auto simp: t_def)
  have "GetSubstitution m str pos [cap] t = t"
    using _ a b by (rule subst_safe) simp
  then show ?thesis
    by (simp add: t_def gate_def_def)
qed

section \<open>Rewriting a located definition\<close>

lemma set_safe:
  assumes gate: "findTodoWriteGate s = Some (Gate (Some n))" and safe: "dollar_safe n"
    and first: "first_at (\<lambda>t. def_at n ''!0'' t \<or> def_at n ''!1'' t) s p"
    and d: "drop p s = gate_def ws n l @ rest" and ws: "is_blank ws" and l: "l \<in> {''!0'', ''!1''}"
  shows "setTeamModeEnabled s e =
     Inr (if l = (if e then ''!0'' else ''!1'')
          then \<lparr>content = s, changed = False, state = (if e then Enabled else Disabled)\<rparr>
          else \<lparr>content = take p s @ gate_def '' '' n (if e then ''!0'' else ''!1'') @ rest,
                changed = True, state = (if e then Enabled else Disabled)\<rparr>)"
proof -
  define m where "m = \<lparr>index = p, matched = gate_def ws n l, captures = [Some l]\<rparr>"
  define l' where "l' = (if e then ''!0'' else ''!1'')"
  have n: "is_ident n"
    using gate_is_ident[OF gate] by simp
  have sm: "str_match s (FD n) = Some m"
    unfolding m_def using n first d ws l by (rule str_match_FD_ident)
  have l': "l' \<in> {''!0'', ''!1''}"
    by (simp add: l'_def)
  have t: "GetSubstitution (matched m) s p (captures m)
             (''function '' @ n @ ''(){return'' @ l' @ ''}'') = gate_def '' '' n l'"
    unfolding m_def by (simp only: rmatch.simps) (rule template_copied[OF n safe l'])
  have "drop (p + length (gate_def ws n l)) s = drop (length (gate_def ws n l)) (drop p s)"
    by (simp add: add.commute)
  then have r: "drop (p + length (matched m)) s = rest"
    unfolding d by (simp add: m_def)
  have c: "capture m 1 = Some l"
    by (simp add: m_def capture_def)
  have i: "index m = p"
    by (simp add: m_def)
  have "setTeamModeEnabled s e =
     Inr (if capture m 1 = Some l'
          then \<lparr>content = s, changed = False, state = (if e then Enabled else Disabled)\<rparr>
          else \<lparr>content = take (index m) s
                  @ GetSubstitution (matched m) s (index m) (captures m)
                      (''function '' @ n @ ''(){return'' @ l' @ ''}'')
                  @ drop (index m + length (matched m)) s,
                changed = True, state = (if e then Enabled else Disabled)\<rparr>)"
    using gate sm unfolding l'_def by (rule set_located)
  then have "setTeamModeEnabled s e =
     Inr (if Some l = Some l'
          then \<lparr>content = s, changed = False, state = (if e then Enabled else Disabled)\<rparr>
          else \<lparr>content = take p s @ gate_def '' '' n l' @ rest,
                changed = True, state = (if e then Enabled else Disabled)\<rparr>)"
    unfolding i unfolding t r c .
  then show ?thesis
    by (simp add: l'_def)
qed

lemma decoy_gate: "findTodoWriteGate decoy = Some (Gate (Some ''yy''))"
proof (rule gate_eval)
  show "str_search decoy TODO_WRITE_MARKER = Some 0" by code_simp
  show "take 8000 decoy = decoy" by (simp add: decoy_def)
  show "map_option (\<lambda>m. capture m 1) (str_match decoy IS_ENABLED_FN_RE) = Some (Some ''yy'')"
    by code_simp
qed

lemma is_ident_zz: "is_ident ''zz''"
  by (simp add: is_ident_def id_start_def id_part_def is_word_def cu_def)

lemma dollar_safe_zz: "dollar_safe ''zz''"
  by simp

text \<open>
  C6 does not hold as worded. The content
  \<open>const x="TodoWrite";isEnabled(){return!yy()}isEnabled(){return!zz()}function zz(){return!0}\<close>
  has a marker, the dispatch pattern for \<open>zz\<close> inside the window and the definition
  \<open>function zz(){return!0}\<close>, yet \<open>detectTeamModeState\<close> returns \<open>unknown\<close>: the gate
  name is taken from the first dispatch call of the window, which names \<open>yy\<close>.
\<close>

theorem decoy_dispatch_unknown:
  "marker_at decoy
   \<and> dispatch_at ''zz'' (drop 44 (take 8000 decoy))
   \<and> def_at ''zz'' ''!0'' (drop 68 decoy)
   \<and> findTodoWriteGate decoy = Some (Gate (Some ''yy''))
   \<and> detectTeamModeState decoy = Inr Unknown"
proof -
  have "decoy = scenario_marker @ ''isEnabled(){return!yy()}isEnabled(){return!zz()}function zz(){return!0}''"
    by (simp add: decoy_def scenario_marker_def)
  then have a: "marker_at decoy"
    unfolding marker_at_words using marker_word_scenario by blast
  have "drop 44 (take 8000 decoy) = dispatch ''zz'' @ ''function zz(){return!0}''"
    by (simp add: decoy_def dispatch_def)
  then have b: "dispatch_at ''zz'' (drop 44 (take 8000 decoy))"
    unfolding dispatch_at_def using is_ident_zz by blast
  have "drop 68 decoy = gate_def '' '' ''zz'' ''!0'' @ []"
    by (simp add: decoy_def gate_def_def)
  then have c: "def_at ''zz'' ''!0'' (drop 68 decoy)"
    unfolding def_at_def using is_blank_single_space by blast
  have "str_match decoy (FD ''yy'') = None"
    by code_simp
  with decoy_gate have d: "detectTeamModeState decoy = Inr Unknown"
    by (rule detect_no_definition)
  show ?thesis
    using a b c decoy_gate d by (intro conjI)
qed

text \<open>
  C6, amended. Let the first marker of the content be at position \<open>i\<close>, let the first
  dispatch pattern \<open>isEnabled(){return!name()}\<close> inside the 8000 characters that start at
  that marker name the function \<open>name\<close>, and let the first definition
  \<open>function name(){return!0}\<close> or \<open>function name(){return!1}\<close> of the content be at
  position \<open>p\<close>, with literal \<open>l\<close>. Then \<open>detectTeamModeState\<close> returns \<open>enabled\<close> for
  \<open>!0\<close> and \<open>disabled\<close> for \<open>!1\<close>. When the literal is \<open>!1\<close> and the name has no
  \<open>$$\<close>, \<open>$1\<close> or \<open>$01\<close> in it, \<open>setTeamModeEnabled\<close> with \<open>true\<close> returns the content
  with that one definition replaced by \<open>function name(){return!0}\<close>, \<open>changed = true\<close> and
  state \<open>enabled\<close>. For the content
  \<open>const x="TodoWrite";...isEnabled(){return!zz()}...function zz(){return!1}\<close> the first
  returns \<open>disabled\<close>, and the second returns the content with
  \<open>function zz(){return!0}\<close>, \<open>changed = true\<close> and state \<open>enabled\<close>.
\<close>

theorem well_formed_bundle_classified:
  assumes "first_at marker_at s i"
    and "first_at (\<lambda>t. \<exists>n. dispatch_at n t) (take 8000 (drop i s)) k"
    and "dispatch_at name (drop k (take 8000 (drop i s)))"
    and "first_at (\<lambda>t. def_at name ''!0'' t \<or> def_at name ''!1'' t) s p"
    and "def_at name l (drop p s)" and "l \<in> {''!0'', ''!1''}"
  shows "detectTeamModeState s = Inr (if l = ''!0'' then Enabled else Disabled)
     \<and> (l = ''!1'' \<and> dollar_safe name \<longrightarrow>
          (\<exists>ws rest. is_blank ws \<and> drop p s = ''function'' @ ws @ name @ ''(){return!1}'' @ rest
             \<and> setTeamModeEnabled s True
                 = Inr \<lparr>content = take p s @ ''function '' @ name @ ''(){return!0}'' @ rest,
                        changed = True, state = Enabled\<rparr>))
     \<and> detectTeamModeState scenario = Inr Disabled
     \<and> setTeamModeEnabled scenario True
         = Inr \<lparr>content = scenario_enabled, changed = True, state = Enabled\<rparr>"
proof -
  have g: "findTodoWriteGate s = Some (Gate (Some name))"
    unfolding findTodoWriteGate_iff using assms(1,2,3) by blast
  have i: "is_ident name"
    using assms(3) by (simp add: dispatch_at_def)
  have a: "detectTeamModeState s = Inr (if l = ''!0'' then Enabled else Disabled)"
    using g i assms(4,5,6) by (rule detect_located)
  have b: "\<exists>ws rest. is_blank ws \<and> drop p s = ''function'' @ ws @ name @ ''(){return!1}'' @ rest
             \<and> setTeamModeEnabled s True
                 = Inr \<lparr>content = take p s @ ''function '' @ name @ ''(){return!0}'' @ rest,
                        changed = True, state = Enabled\<rparr>"
    if l: "l = ''!1''" and safe: "dollar_safe name"
  proof -
    from assms(5) obtain ws rest where d: "drop p s = gate_def ws name l @ rest" and w: "is_blank ws"
      unfolding def_at_def by blast
    have "setTeamModeEnabled s True =
       Inr (if l = (if True then ''!0'' else ''!1'')
          then \<lparr>content = s, changed = False, state = (if True then Enabled else Disabled)\<rparr>
          else \<lparr>content = take p s @ gate_def '' '' name (if True then ''!0'' else ''!1'') @ rest,
                changed = True, state = (if True then Enabled else Disabled)\<rparr>)"
      using g safe assms(4) d w assms(6) by (rule set_safe)
    then have "setTeamModeEnabled s True
                 = Inr \<lparr>content = take p s @ ''function '' @ name @ ''(){return!0}'' @ rest,
                        changed = True, state = Enabled\<rparr>"
      using l by (simp add: gate_def_def)
    moreover have "drop p s = ''function'' @ ws @ name @ ''(){return!1}'' @ rest"
      using d l by (simp add: gate_def_def)
    ultimately show ?thesis
      using w by blast
  qed
  show ?thesis
    using a b scenario_detect scenario_set by (intro conjI impI) simp_all
qed

theorem well_formed_bundle_classified_witness:
  "first_at marker_at scenario 0
   \<and> first_at (\<lambda>t. \<exists>n. dispatch_at n t) (take 8000 (drop 0 scenario)) 23
   \<and> dispatch_at ''zz'' (drop 23 (take 8000 (drop 0 scenario)))
   \<and> first_at (\<lambda>t. def_at ''zz'' ''!0'' t \<or> def_at ''zz'' ''!1'' t) scenario 50
   \<and> def_at ''zz'' ''!1'' (drop 50 scenario)
   \<and> dollar_safe ''zz''
   \<and> detectTeamModeState scenario = Inr Disabled
   \<and> (\<exists>ws rest. is_blank ws \<and> drop 50 scenario = ''function'' @ ws @ ''zz'' @ ''(){return!1}'' @ rest
         \<and> setTeamModeEnabled scenario True
             = Inr \<lparr>content = take 50 scenario @ ''function '' @ ''zz'' @ ''(){return!0}'' @ rest,
                    changed = True, state = Enabled\<rparr>)"
proof -
  have a: "first_at marker_at scenario 0"
  proof -
    have "str_search scenario TODO_WRITE_MARKER = Some 0" by code_simp
    then show ?thesis by (simp only: str_search_marker_Some)
  qed
  have w: "take 8000 (drop 0 scenario) = scenario"
    by (simp add: window_scenario)
  from scenario_dispatch obtain k n where
    b: "first_at (\<lambda>t. \<exists>n. dispatch_at n t) scenario k" "dispatch_at n (drop k scenario)"
    and e: "\<lparr>index = 23, matched = ''isEnabled(){return!zz()}'', captures = [Some ''zz'']\<rparr>
          = \<lparr>index = k, matched = dispatch n, captures = [Some n]\<rparr>"
    unfolding str_match_dispatch by blast
  from e have kn: "k = 23" "n = ''zz''" by simp_all
  from str_match_FD_D[OF scenario_definition] obtain ws l rest where
    c: "is_blank ws" "l \<in> {''!0'', ''!1''}"
       "first_at (\<lambda>t. def_at ''zz'' ''!0'' t \<or> def_at ''zz'' ''!1'' t) scenario 50"
       "drop 50 scenario = gate_def ws ''zz'' l @ rest" "[Some ''!1''] = [Some l]"
    by auto
  then have d: "def_at ''zz'' ''!1'' (drop 50 scenario)"
    by (auto simp: def_at_def)
  have b1: "first_at (\<lambda>t. \<exists>n. dispatch_at n t) (take 8000 (drop 0 scenario)) 23"
    using b(1) kn(1) w by simp
  have b2: "dispatch_at ''zz'' (drop 23 (take 8000 (drop 0 scenario)))"
    using b(2) kn w by simp
  have l1: "''!1'' \<in> {''!0'', ''!1''}"
    by simp
  note T = well_formed_bundle_classified[OF a b1 b2 c(3) d l1]
  have "detectTeamModeState scenario = Inr (if ''!1'' = ''!0'' then Enabled else Disabled)"
    using T by (rule conjunct1)
  then have h1: "detectTeamModeState scenario = Inr Disabled"
    by simp
  have imp: "''!1'' = ''!1'' \<and> dollar_safe ''zz'' \<longrightarrow>
          (\<exists>ws rest. is_blank ws \<and> drop 50 scenario = ''function'' @ ws @ ''zz'' @ ''(){return!1}'' @ rest
             \<and> setTeamModeEnabled scenario True
                 = Inr \<lparr>content = take 50 scenario @ ''function '' @ ''zz'' @ ''(){return!0}'' @ rest,
                        changed = True, state = Enabled\<rparr>)"
    using T[THEN conjunct2] by (rule conjunct1)
  have h2: "\<exists>ws rest. is_blank ws \<and> drop 50 scenario = ''function'' @ ws @ ''zz'' @ ''(){return!1}'' @ rest
             \<and> setTeamModeEnabled scenario True
                 = Inr \<lparr>content = take 50 scenario @ ''function '' @ ''zz'' @ ''(){return!0}'' @ rest,
                        changed = True, state = Enabled\<rparr>"
  proof (rule mp[OF imp])
    show "''!1'' = ''!1'' \<and> dollar_safe ''zz''"
      using dollar_safe_zz by simp
  qed
  show ?thesis
    using a b1 b2 c(3) d dollar_safe_zz h1 h2 by (intro conjI)
qed

section \<open>Switching on and off again\<close>

lemma located_change:
  assumes gate: "findTodoWriteGate s = Some (Gate (Some n))" and safe: "dollar_safe n"
    and r: "setTeamModeEnabled s e = Inr r" and ch: "changed r"
  shows "\<exists>pre ws post. is_blank ws
     \<and> s = pre @ gate_def ws n (if e then ''!1'' else ''!0'') @ post
     \<and> first_at (\<lambda>t. def_at n ''!0'' t \<or> def_at n ''!1'' t) s (length pre)
     \<and> r = \<lparr>content = pre @ gate_def '' '' n (if e then ''!0'' else ''!1'') @ post,
             changed = True, state = (if e then Enabled else Disabled)\<rparr>"
proof (cases "str_match s (FD n)")
  case None
  with gate have "setTeamModeEnabled s e = Inr \<lparr>content = s, changed = False, state = Unknown\<rparr>"
    by (rule set_no_definition)
  then have "r = \<lparr>content = s, changed = False, state = Unknown\<rparr>"
    using r by simp
  then have "\<not> changed r"
    by simp
  then show ?thesis
    using ch by simp
next
  case (Some m)
  define p where "p = index m"
  from str_match_FD_D[OF Some] obtain ws l rest where w: "is_blank ws" and l: "l \<in> {''!0'', ''!1''}"
    and f: "first_at (\<lambda>t. def_at n ''!0'' t \<or> def_at n ''!1'' t) s p"
    and d: "drop p s = gate_def ws n l @ rest"
    unfolding p_def by blast
  have "setTeamModeEnabled s e =
     Inr (if l = (if e then ''!0'' else ''!1'')
          then \<lparr>content = s, changed = False, state = (if e then Enabled else Disabled)\<rparr>
          else \<lparr>content = take p s @ gate_def '' '' n (if e then ''!0'' else ''!1'') @ rest,
                changed = True, state = (if e then Enabled else Disabled)\<rparr>)"
    using gate safe f d w l by (rule set_safe)
  then have req: "r = (if l = (if e then ''!0'' else ''!1'')
          then \<lparr>content = s, changed = False, state = (if e then Enabled else Disabled)\<rparr>
          else \<lparr>content = take p s @ gate_def '' '' n (if e then ''!0'' else ''!1'') @ rest,
                changed = True, state = (if e then Enabled else Disabled)\<rparr>)"
    using r by simp
  have ne: "l \<noteq> (if e then ''!0'' else ''!1'')"
  proof
    assume "l = (if e then ''!0'' else ''!1'')"
    then have "r = \<lparr>content = s, changed = False, state = (if e then Enabled else Disabled)\<rparr>"
      using req by simp
    then have "\<not> changed r"
      by simp
    then show False using ch by simp
  qed
  then have l': "l = (if e then ''!1'' else ''!0'')"
    using l by auto
  have r': "r = \<lparr>content = take p s @ gate_def '' '' n (if e then ''!0'' else ''!1'') @ rest,
                changed = True, state = (if e then Enabled else Disabled)\<rparr>"
    using req ne by simp
  have pl: "p \<le> length s"
    using f unfolding first_at_def by (rule conjunct1)
  then have lp: "length (take p s) = p"
    by simp
  have "s = take p s @ drop p s"
    by simp
  then have sp: "s = take p s @ gate_def ws n (if e then ''!1'' else ''!0'') @ rest"
    unfolding d l' .
  have f': "first_at (\<lambda>t. def_at n ''!0'' t \<or> def_at n ''!1'' t) s (length (take p s))"
    unfolding lp using f .
  show ?thesis
    using w sp f' r' by (intro exI[of _ "take p s"] exI[of _ ws] exI[of _ rest] conjI)
qed

lemma def_word_gate_def:
  "is_blank ws \<Longrightarrow> l \<in> {''!0'', ''!1''} \<Longrightarrow> def_word n (gate_def ws n l)"
  unfolding def_word_def by blast

lemma length_gate_def_le:
  assumes "l \<in> {''!0'', ''!1''}" "l' \<in> {''!0'', ''!1''}" "length ws' \<le> length ws"
  shows "length (gate_def ws' n l') \<le> length (gate_def ws n l)"
proof -
  have "length l = 2" "length l' = 2"
    using assms(1,2) by auto
  then show ?thesis
    using assms(3) by (simp add: gate_def_def)
qed

lemma swap_located:
  assumes n: "is_ident n" and ws: "is_blank ws" and ws': "is_blank ws'"
    and l: "l \<in> {''!0'', ''!1''}" and l': "l' \<in> {''!0'', ''!1''}"
    and len: "length ws' \<le> length ws"
    and gate: "findTodoWriteGate (pre @ gate_def ws n l @ post) = Some G"
    and first: "first_at (\<lambda>t. def_at n ''!0'' t \<or> def_at n ''!1'' t)
                  (pre @ gate_def ws n l @ post) (length pre)"
  shows "findTodoWriteGate (pre @ gate_def ws' n l' @ post) = Some G
     \<and> first_at (\<lambda>t. def_at n ''!0'' t \<or> def_at n ''!1'' t)
          (pre @ gate_def ws' n l' @ post) (length pre)"
proof -
  have g: "def_word n (gate_def ws n l)"
    using ws l by (rule def_word_gate_def)
  have g': "def_word n (gate_def ws' n l')"
    using ws' l' by (rule def_word_gate_def)
  have le: "length (gate_def ws' n l') \<le> length (gate_def ws n l)"
    using l l' len by (rule length_gate_def_le)
  have a: "findTodoWriteGate (pre @ gate_def ws' n l' @ post) = Some G"
    using n g g' le gate by (rule swap_gate)
  have b: "first_at (\<lambda>t. def_at n ''!0'' t \<or> def_at n ''!1'' t)
          (pre @ gate_def ws' n l' @ post) (length pre)"
    using n g g' first by (rule swap_def)
  show ?thesis
    using a b by (rule conjI)
qed

lemma blank_length: "is_blank ws \<Longrightarrow> length '' '' \<le> length ws"
  by (cases ws) (simp_all add: is_blank_def)

lemma lits: "''!0'' \<in> {''!0'', ''!1''}" "''!1'' \<in> {''!0'', ''!1''}"
  by simp_all

lemma round_trip_located:
  assumes gate: "findTodoWriteGate s = Some (Gate (Some n))" and safe: "dollar_safe n"
    and r1: "setTeamModeEnabled s True = Inr r1" and ch: "changed r1"
  shows "\<exists>pre ws post. is_blank ws
     \<and> s = pre @ gate_def ws n ''!1'' @ post
     \<and> first_at (\<lambda>t. def_at n ''!0'' t \<or> def_at n ''!1'' t) s (length pre)
     \<and> r1 = \<lparr>content = pre @ gate_def '' '' n ''!0'' @ post, changed = True, state = Enabled\<rparr>
     \<and> setTeamModeEnabled (pre @ gate_def '' '' n ''!0'' @ post) False
         = Inr \<lparr>content = pre @ gate_def '' '' n ''!1'' @ post, changed = True, state = Disabled\<rparr>
     \<and> detectTeamModeState (pre @ gate_def '' '' n ''!1'' @ post) = Inr Disabled"
proof -
  have n: "is_ident n"
    using gate_is_ident[OF gate] by simp
  from located_change[OF gate safe r1 ch] obtain pre ws post where w: "is_blank ws"
    and s: "s = pre @ gate_def ws n ''!1'' @ post"
    and f: "first_at (\<lambda>t. def_at n ''!0'' t \<or> def_at n ''!1'' t) s (length pre)"
    and r: "r1 = \<lparr>content = pre @ gate_def '' '' n ''!0'' @ post, changed = True, state = Enabled\<rparr>"
    by auto
  define s1 where "s1 = pre @ gate_def '' '' n ''!0'' @ post"
  define s2 where "s2 = pre @ gate_def '' '' n ''!1'' @ post"
  have b: "is_blank '' ''"
    by (rule is_blank_single_space)
  have g1: "findTodoWriteGate s1 = Some (Gate (Some n))
     \<and> first_at (\<lambda>t. def_at n ''!0'' t \<or> def_at n ''!1'' t) s1 (length pre)"
    unfolding s1_def
    using n w b lits(2) lits(1) blank_length[OF w] gate[unfolded s] f[unfolded s]
    by (rule swap_located)
  have g2: "findTodoWriteGate s2 = Some (Gate (Some n))
     \<and> first_at (\<lambda>t. def_at n ''!0'' t \<or> def_at n ''!1'' t) s2 (length pre)"
    unfolding s2_def
    using n b b lits(1) lits(2) order_refl g1[THEN conjunct1, unfolded s1_def]
      g1[THEN conjunct2, unfolded s1_def]
    by (rule swap_located)
  have d1: "drop (length pre) s1 = gate_def '' '' n ''!0'' @ post"
    by (simp add: s1_def)
  have "setTeamModeEnabled s1 False =
     Inr (if ''!0'' = (if False then ''!0'' else ''!1'')
          then \<lparr>content = s1, changed = False, state = (if False then Enabled else Disabled)\<rparr>
          else \<lparr>content = take (length pre) s1 @ gate_def '' '' n (if False then ''!0'' else ''!1'') @ post,
                changed = True, state = (if False then Enabled else Disabled)\<rparr>)"
    using g1[THEN conjunct1] safe g1[THEN conjunct2] d1 b lits(1) by (rule set_safe)
  moreover have "take (length pre) s1 = pre"
    by (simp add: s1_def)
  ultimately have x: "setTeamModeEnabled s1 False
      = Inr \<lparr>content = s2, changed = True, state = Disabled\<rparr>"
    by (simp add: s2_def)
  have "drop (length pre) s2 = gate_def '' '' n ''!1'' @ post"
    by (simp add: s2_def)
  then have "def_at n ''!1'' (drop (length pre) s2)"
    unfolding def_at_def using b by blast
  with g2[THEN conjunct1] n g2[THEN conjunct2]
  have "detectTeamModeState s2 = Inr (if ''!1'' = ''!0'' then Enabled else Disabled)"
    using lits(2) by (rule detect_located)
  then have y: "detectTeamModeState s2 = Inr Disabled"
    by simp
  show ?thesis
    using w s f r x y unfolding s1_def s2_def
    by (intro exI[of _ pre] exI[of _ ws] exI[of _ post] conjI)
qed

lemma set_false_eval:
  assumes "findTodoWriteGate s = Some (Gate (Some n))"
    and "str_match s (FD n) = Some m" and "capture m 1 = Some ''!0''"
    and "str_replace s (FD n) (''function '' @ n @ ''(){return!1}'') = out"
  shows "setTeamModeEnabled s False = Inr \<lparr>content = out, changed = True, state = Disabled\<rparr>"
  using assms by (simp add: setTeamModeEnabled_def fnDefRe_FD)

lemma bundle_spaces_gate: "findTodoWriteGate bundle_spaces = Some (Gate (Some ''zz''))"
proof (rule gate_eval)
  show "str_search bundle_spaces TODO_WRITE_MARKER = Some 0" by code_simp
  show "take 8000 bundle_spaces = bundle_spaces" by (simp add: bundle_spaces_def)
  show "map_option (\<lambda>m. capture m 1) (str_match bundle_spaces IS_ENABLED_FN_RE) = Some (Some ''zz'')"
    by code_simp
qed

lemma bundle_spaces_enabled_gate:
  "findTodoWriteGate bundle_spaces_enabled = Some (Gate (Some ''zz''))"
proof (rule gate_eval)
  show "str_search bundle_spaces_enabled TODO_WRITE_MARKER = Some 0" by code_simp
  show "take 8000 bundle_spaces_enabled = bundle_spaces_enabled"
    by (simp add: bundle_spaces_enabled_def)
  show "map_option (\<lambda>m. capture m 1) (str_match bundle_spaces_enabled IS_ENABLED_FN_RE)
          = Some (Some ''zz'')"
    by code_simp
qed

lemma bundle_spaces_disabled_gate:
  "findTodoWriteGate bundle_spaces_disabled = Some (Gate (Some ''zz''))"
proof (rule gate_eval)
  show "str_search bundle_spaces_disabled TODO_WRITE_MARKER = Some 0" by code_simp
  show "take 8000 bundle_spaces_disabled = bundle_spaces_disabled"
    by (simp add: bundle_spaces_disabled_def)
  show "map_option (\<lambda>m. capture m 1) (str_match bundle_spaces_disabled IS_ENABLED_FN_RE)
          = Some (Some ''zz'')"
    by code_simp
qed

text \<open>
  C2 does not hold as worded. The replacement writes one space after \<open>function\<close>,
  whatever whitespace the definition had. For the content
  \<open>const x="TodoWrite";isEnabled(){return!zz()}function  zz(){return!1}\<close>, with two spaces,
  switching on and then off gives
  \<open>const x="TodoWrite";isEnabled(){return!zz()}function zz(){return!1}\<close>: it is classified
  \<open>disabled\<close>, but it is one character shorter than the original, so a character outside
  the sentinel token was not preserved.
\<close>

theorem whitespace_not_restored:
  "setTeamModeEnabled bundle_spaces True
     = Inr \<lparr>content = bundle_spaces_enabled, changed = True, state = Enabled\<rparr>
   \<and> setTeamModeEnabled bundle_spaces_enabled False
     = Inr \<lparr>content = bundle_spaces_disabled, changed = True, state = Disabled\<rparr>
   \<and> detectTeamModeState bundle_spaces_disabled = Inr Disabled
   \<and> bundle_spaces_disabled \<noteq> bundle_spaces
   \<and> length bundle_spaces_disabled < length bundle_spaces"
proof -
  have m1: "str_match bundle_spaces (FD ''zz'')
      = Some \<lparr>index = 44, matched = ''function  zz(){return!1}'', captures = [Some ''!1'']\<rparr>"
    by code_simp
  have r1: "str_replace bundle_spaces (FD ''zz'') (''function '' @ ''zz'' @ ''(){return!0}'')
      = bundle_spaces_enabled"
    by code_simp
  have a: "setTeamModeEnabled bundle_spaces True
     = Inr \<lparr>content = bundle_spaces_enabled, changed = True, state = Enabled\<rparr>"
    using bundle_spaces_gate m1 _ r1 by (rule set_true_eval) (simp add: capture_def)
  have m2: "str_match bundle_spaces_enabled (FD ''zz'')
      = Some \<lparr>index = 44, matched = ''function zz(){return!0}'', captures = [Some ''!0'']\<rparr>"
    by code_simp
  have r2: "str_replace bundle_spaces_enabled (FD ''zz'') (''function '' @ ''zz'' @ ''(){return!1}'')
      = bundle_spaces_disabled"
    by code_simp
  have b: "setTeamModeEnabled bundle_spaces_enabled False
     = Inr \<lparr>content = bundle_spaces_disabled, changed = True, state = Disabled\<rparr>"
    using bundle_spaces_enabled_gate m2 _ r2 by (rule set_false_eval) (simp add: capture_def)
  have m3: "str_match bundle_spaces_disabled (FD ''zz'')
      = Some \<lparr>index = 44, matched = ''function zz(){return!1}'', captures = [Some ''!1'']\<rparr>"
    by code_simp
  have c: "detectTeamModeState bundle_spaces_disabled = Inr Disabled"
    using bundle_spaces_disabled_gate m3
    by (simp add: detectTeamModeState_def findGateDefinition_def fnDefRe_FD capture_def)
  have d: "length bundle_spaces_disabled < length bundle_spaces"
    by (simp add: bundle_spaces_def bundle_spaces_disabled_def)
  then have e: "bundle_spaces_disabled \<noteq> bundle_spaces"
    by auto
  show ?thesis
    using a b c e d by (intro conjI)
qed

text \<open>
  C2, amended. Let \<open>setTeamModeEnabled\<close> with \<open>true\<close> report a change on a content whose
  gate function \<open>n\<close> has no \<open>$$\<close>, \<open>$1\<close> or \<open>$01\<close> in its name. Then the content is
  \<open>pre\<close>, the first definition of the gate function, \<open>post\<close>; that definition reads
  \<open>function\<close>, whitespace \<open>ws\<close>, \<open>n\<close>, \<open>(){return!1}\<close>; the first call returns
  \<open>pre\<close>, \<open>function n(){return!0}\<close>, \<open>post\<close>; \<open>setTeamModeEnabled\<close> with \<open>false\<close> on
  that result reports a change and returns \<open>pre\<close>, \<open>function n(){return!1}\<close>, \<open>post\<close>,
  which \<open>detectTeamModeState\<close> classifies as \<open>disabled\<close>. So every character outside the
  one definition is preserved, the sentinel is \<open>!1\<close> again, and the whitespace after
  \<open>function\<close> has become one space: the final content is the original one exactly when
  \<open>ws\<close> was one space.
\<close>

theorem round_trip_disabled:
  assumes "findTodoWriteGate s = Some (Gate (Some n))" and "dollar_safe n"
    and "setTeamModeEnabled s True = Inr r1" and "changed r1"
  shows "\<exists>pre ws post. is_blank ws
     \<and> s = pre @ ''function'' @ ws @ n @ ''(){return!1}'' @ post
     \<and> first_at (\<lambda>t. def_at n ''!0'' t \<or> def_at n ''!1'' t) s (length pre)
     \<and> r1 = \<lparr>content = pre @ ''function '' @ n @ ''(){return!0}'' @ post,
              changed = True, state = Enabled\<rparr>
     \<and> setTeamModeEnabled (content r1) False
         = Inr \<lparr>content = pre @ ''function '' @ n @ ''(){return!1}'' @ post,
                changed = True, state = Disabled\<rparr>
     \<and> detectTeamModeState (pre @ ''function '' @ n @ ''(){return!1}'' @ post) = Inr Disabled
     \<and> ((pre @ ''function '' @ n @ ''(){return!1}'' @ post = s) = (ws = '' ''))"
proof -
  have n: "is_ident n"
    using gate_is_ident[OF assms(1)] by simp
  from round_trip_located[OF assms] obtain pre ws post where w: "is_blank ws"
    and s: "s = pre @ gate_def ws n ''!1'' @ post"
    and f: "first_at (\<lambda>t. def_at n ''!0'' t \<or> def_at n ''!1'' t) s (length pre)"
    and r: "r1 = \<lparr>content = pre @ gate_def '' '' n ''!0'' @ post, changed = True, state = Enabled\<rparr>"
    and x: "setTeamModeEnabled (pre @ gate_def '' '' n ''!0'' @ post) False
         = Inr \<lparr>content = pre @ gate_def '' '' n ''!1'' @ post, changed = True, state = Disabled\<rparr>"
    and y: "detectTeamModeState (pre @ gate_def '' '' n ''!1'' @ post) = Inr Disabled"
    by blast
  have c: "content r1 = pre @ gate_def '' '' n ''!0'' @ post"
    using r by simp
  have e: "(pre @ gate_def '' '' n ''!1'' @ post = s) = (ws = '' '')"
  proof
    assume "pre @ gate_def '' '' n ''!1'' @ post = s"
    then have "gate_def '' '' n ''!1'' @ post = gate_def ws n ''!1'' @ post"
      unfolding s by simp
    with n is_blank_single_space w lits(2) lits(2) have "'' '' = ws \<and> ''!1'' = ''!1'' \<and> post = post"
      by (rule gate_def_unique)
    then show "ws = '' ''"
      by simp
  next
    assume "ws = '' ''"
    then show "pre @ gate_def '' '' n ''!1'' @ post = s"
      unfolding s by simp
  qed
  have g1: "gate_def ws n ''!1'' = ''function'' @ ws @ n @ ''(){return!1}''"
    and g2: "gate_def '' '' n ''!0'' = ''function '' @ n @ ''(){return!0}''"
    and g3: "gate_def '' '' n ''!1'' = ''function '' @ n @ ''(){return!1}''"
    by (simp_all add: gate_def_def)
  have s': "s = pre @ ''function'' @ ws @ n @ ''(){return!1}'' @ post"
    using s unfolding g1 by simp
  have r': "r1 = \<lparr>content = pre @ ''function '' @ n @ ''(){return!0}'' @ post,
              changed = True, state = Enabled\<rparr>"
    using r unfolding g2 by simp
  have x': "setTeamModeEnabled (content r1) False
         = Inr \<lparr>content = pre @ ''function '' @ n @ ''(){return!1}'' @ post,
                changed = True, state = Disabled\<rparr>"
    using x unfolding c[symmetric] unfolding g3 by simp
  have y': "detectTeamModeState (pre @ ''function '' @ n @ ''(){return!1}'' @ post) = Inr Disabled"
    using y unfolding g3 by simp
  have e': "(pre @ ''function '' @ n @ ''(){return!1}'' @ post = s) = (ws = '' '')"
    using e unfolding g3 by simp
  show ?thesis
    using w s' f r' x' y' e' by (intro exI[of _ pre] exI[of _ ws] exI[of _ post] conjI)
qed

theorem round_trip_disabled_witness:
  "findTodoWriteGate scenario = Some (Gate (Some ''zz'')) \<and> dollar_safe ''zz''
   \<and> setTeamModeEnabled scenario True
       = Inr \<lparr>content = scenario_enabled, changed = True, state = Enabled\<rparr>
   \<and> changed \<lparr>content = scenario_enabled, changed = True, state = Enabled\<rparr>
   \<and> (\<exists>pre ws post. is_blank ws
     \<and> scenario = pre @ ''function'' @ ws @ ''zz'' @ ''(){return!1}'' @ post
     \<and> scenario_enabled = pre @ ''function '' @ ''zz'' @ ''(){return!0}'' @ post
     \<and> setTeamModeEnabled scenario_enabled False
         = Inr \<lparr>content = pre @ ''function '' @ ''zz'' @ ''(){return!1}'' @ post,
                changed = True, state = Disabled\<rparr>
     \<and> detectTeamModeState (pre @ ''function '' @ ''zz'' @ ''(){return!1}'' @ post) = Inr Disabled)"
proof -
  define r1 where "r1 = \<lparr>content = scenario_enabled, changed = True, state = Enabled\<rparr>"
  have a: "setTeamModeEnabled scenario True = Inr r1"
    unfolding r1_def by (rule scenario_set)
  have b: "changed r1"
    by (simp add: r1_def)
  have c: "content r1 = scenario_enabled"
    by (simp add: r1_def)
  from round_trip_disabled[OF scenario_gate dollar_safe_zz a b]
  obtain pre ws post where w: "is_blank ws"
    and s: "scenario = pre @ ''function'' @ ws @ ''zz'' @ ''(){return!1}'' @ post"
    and r: "r1 = \<lparr>content = pre @ ''function '' @ ''zz'' @ ''(){return!0}'' @ post,
              changed = True, state = Enabled\<rparr>"
    and x: "setTeamModeEnabled (content r1) False
         = Inr \<lparr>content = pre @ ''function '' @ ''zz'' @ ''(){return!1}'' @ post,
                changed = True, state = Disabled\<rparr>"
    and y: "detectTeamModeState (pre @ ''function '' @ ''zz'' @ ''(){return!1}'' @ post) = Inr Disabled"
    by (elim exE conjE)
  have "content r1 = pre @ ''function '' @ ''zz'' @ ''(){return!0}'' @ post"
    by (subst r) simp
  then have e: "scenario_enabled = pre @ ''function '' @ ''zz'' @ ''(){return!0}'' @ post"
    unfolding c .
  have x': "setTeamModeEnabled scenario_enabled False
         = Inr \<lparr>content = pre @ ''function '' @ ''zz'' @ ''(){return!1}'' @ post,
                changed = True, state = Disabled\<rparr>"
    using x unfolding c .
  have t: "\<exists>pre ws post. is_blank ws
     \<and> scenario = pre @ ''function'' @ ws @ ''zz'' @ ''(){return!1}'' @ post
     \<and> scenario_enabled = pre @ ''function '' @ ''zz'' @ ''(){return!0}'' @ post
     \<and> setTeamModeEnabled scenario_enabled False
         = Inr \<lparr>content = pre @ ''function '' @ ''zz'' @ ''(){return!1}'' @ post,
                changed = True, state = Disabled\<rparr>
     \<and> detectTeamModeState (pre @ ''function '' @ ''zz'' @ ''(){return!1}'' @ post) = Inr Disabled"
    using w s e x' y by (intro exI[of _ pre] exI[of _ ws] exI[of _ post] conjI)
  show ?thesis
    using scenario_gate dollar_safe_zz a[unfolded r1_def] b[unfolded r1_def] t by (intro conjI)
qed

section \<open>Reading a configuration file\<close>

lemma readJson_missing: "fs filePath = None \<Longrightarrow> readJson fs filePath = JNull"
  by (simp add: readJson_def)

lemma readJson_too_large:
  "fs filePath = Some stats \<Longrightarrow> MAX_JSON_SIZE < file_size stats \<Longrightarrow> readJson fs filePath = JNull"
  by (simp add: readJson_def)

lemma readJson_malformed:
  "fs filePath = Some stats \<Longrightarrow> file_text stats = Some cont \<Longrightarrow> JSON_parse cont = Inl e
     \<Longrightarrow> readJson fs filePath = JNull"
  by (simp add: readJson_def)

lemma readJson_parsed:
  assumes "fs filePath = Some stats" and "file_size stats \<le> MAX_JSON_SIZE"
    and "file_text stats = Some cont" and "JSON_parse cont = Inr parsed"
    and "sanitizeJson parsed = Inr v"
  shows "readJson fs filePath = v"
  using assms by (simp add: readJson_def)

lemma hazard_parse: "JSON_parse hazard_text = Inr hazard_value"
  by code_simp

lemma hazard_stringify: "JSON_stringify hazard_value = hazard_text"
  by code_simp

lemma hazard_size: "length hazard_text = 66"
  by code_simp

text \<open>
  C4 fails on the code. \<open>sanitizeJson\<close> is \<open>JSON.parse (JSON.stringify obj)\<close>, and neither of
  the two drops a key: \<open>JSON.parse\<close> makes \<open>__proto__\<close>, \<open>constructor\<close> and \<open>prototype\<close>
  own properties like any other key, and \<open>JSON.stringify\<close> writes every own property.
  The file \<open>{"__proto__":{"polluted":true},"constructor":"x","prototype":null}\<close> has 66
  bytes, parses, and \<open>readJson\<close> returns its value with the three keys in place: it is
  neither \<open>null\<close> nor a value without them.
\<close>

theorem hazard_keys_kept:
  "JSON_parse hazard_text = Inr hazard_value
   \<and> JSON_stringify hazard_value = hazard_text
   \<and> sanitizeJson hazard_value = Inr hazard_value
   \<and> hazard_fs ''config.json''
       = Some \<lparr>file_size = 66, file_text = Some hazard_text\<rparr>
   \<and> 66 \<le> MAX_JSON_SIZE
   \<and> readJson hazard_fs ''config.json''
       = JObj [(js ''__proto__'', JObj [(js ''polluted'', JBool True)]),
               (js ''constructor'', JStr (js ''x'')), (js ''prototype'', JNull)]"
proof -
  have s: "sanitizeJson hazard_value = Inr hazard_value"
    by (simp add: sanitizeJson_def hazard_stringify hazard_parse)
  have f: "hazard_fs ''config.json'' = Some \<lparr>file_size = 66, file_text = Some hazard_text\<rparr>"
    by (simp add: hazard_fs_def hazard_size)
  have m: "66 \<le> MAX_JSON_SIZE"
    by (simp add: MAX_JSON_SIZE_def)
  have "readJson hazard_fs ''config.json'' = hazard_value"
    using f _ _ hazard_parse s by (rule readJson_parsed) (simp_all add: m)
  then have r: "readJson hazard_fs ''config.json''
       = JObj [(js ''__proto__'', JObj [(js ''polluted'', JBool True)]),
               (js ''constructor'', JStr (js ''x'')), (js ''prototype'', JNull)]"
    by (simp add: hazard_value_def)
  show ?thesis
    using hazard_parse hazard_stringify s f m r by (intro conjI)
qed

section \<open>The patterns as the source writes them\<close>

text \<open>
  The three regular expressions used above are what the pattern parser makes of the
  pattern texts of the source.
\<close>

lemma TODO_WRITE_MARKER_parsed:
  "new_RegExp TODO_WRITE_MARKER_source False = Some TODO_WRITE_MARKER"
  by code_simp

lemma IS_ENABLED_FN_RE_parsed:
  "new_RegExp IS_ENABLED_FN_RE_source False = Some IS_ENABLED_FN_RE"
  by code_simp

lemma escapeRegExp_RE_parsed:
  "new_RegExp escapeRegExp_source True = Some escapeRegExp_RE"
  by code_simp

end
